theory Spec2Isabelle
  imports Complex_Main
begin

section \<open>Python values\<close>

text \<open>
  The engine is Python. Integers are unbounded (\<open>int\<close>); a string is a list of cells
  (\<open>string\<close>), one \<open>char\<close> per code point below 256 (the boards are ASCII, which the
  source's own \<open>bytearray\<close> indexing relies on); an exception is a value of \<open>error\<close>.
\<close>

datatype error =
    IndexError | ValueError | TypeError | KeyError | AttributeError | ZeroDivisionError
  | NoReturn

text \<open>\<open>xs[i]\<close>: a negative index counts from the end, anything outside raises IndexError.\<close>

definition py_index :: "'a list \<Rightarrow> int \<Rightarrow> 'a option" where
  "py_index xs i =
     (let len = int (length xs)
      in if 0 \<le> i \<and> i < len then Some (xs ! nat i)
         else if - len \<le> i \<and> i < 0 then Some (xs ! nat (len + i))
         else None)"

text \<open>\<open>xs[i] = y\<close> on a list or bytearray, with the same index rule.\<close>

definition py_setitem :: "'a list \<Rightarrow> int \<Rightarrow> 'a \<Rightarrow> 'a list option" where
  "py_setitem xs i y =
     (let len = int (length xs)
      in if 0 \<le> i \<and> i < len then Some (xs[nat i := y])
         else if - len \<le> i \<and> i < 0 then Some (xs[nat (len + i) := y])
         else None)"

text \<open>The slices \<open>xs[:i]\<close> and \<open>xs[i:]\<close>: never an error, the bound is clamped.\<close>

definition py_slice_to :: "'a list \<Rightarrow> int \<Rightarrow> 'a list" where
  "py_slice_to xs i = (if 0 \<le> i then take (nat i) xs else take (nat (int (length xs) + i)) xs)"

definition py_slice_from :: "'a list \<Rightarrow> int \<Rightarrow> 'a list" where
  "py_slice_from xs i = (if 0 \<le> i then drop (nat i) xs else drop (nat (int (length xs) + i)) xs)"

text \<open>\<open>str.isspace\<close> on one character (the whitespace code points below 256).\<close>

definition isspace :: "char \<Rightarrow> bool" where
  "isspace ch = ((of_char ch :: nat) \<in> {9, 10, 11, 12, 13, 28, 29, 30, 31, 32, 133, 160})"

definition isdigit :: "char \<Rightarrow> bool" where
  "isdigit ch = (48 \<le> (of_char ch :: nat) \<and> (of_char ch :: nat) \<le> 57)"

text \<open>\<open>str(k)\<close> of an integer, as the f-string of \<open>str_coord\<close> formats it.\<close>

definition digit_char :: "nat \<Rightarrow> char" where
  "digit_char d = char_of (48 + d)"

fun str_nat :: "nat \<Rightarrow> string" where
  "str_nat k = (if k < 10 then [digit_char k] else str_nat (k div 10) @ [digit_char (k mod 10)])"

declare str_nat.simps [simp del]

definition str_int :: "int \<Rightarrow> string" where
  "str_int k = (if k < 0 then CHR ''-'' # str_nat (nat (- k)) else str_nat (nat k))"

text \<open>
  \<open>int(s)\<close>: surrounding whitespace is stripped, one sign is allowed, then decimal digits
  with single underscores between digits; anything else raises ValueError (\<open>None\<close> here).
\<close>

definition strip :: "string \<Rightarrow> string" where
  "strip s = rev (dropWhile isspace (rev (dropWhile isspace s)))"

fun int_digits :: "string \<Rightarrow> bool \<Rightarrow> nat \<Rightarrow> nat option" where
  "int_digits [] prev acc = (if prev then Some acc else None)"
| "int_digits (ch # cs) prev acc =
     (if isdigit ch then int_digits cs True (10 * acc + (of_char ch - 48))
      else if ch = CHR ''_'' \<and> prev \<and> (case cs of [] \<Rightarrow> False | d # _ \<Rightarrow> isdigit d)
           then int_digits cs False acc
      else None)"

definition py_int :: "string \<Rightarrow> int option" where
  "py_int s =
     (case strip s of
        [] \<Rightarrow> None
      | ch # cs \<Rightarrow>
          if ch = CHR ''-'' then map_option (\<lambda>k. - int k) (int_digits cs False 0)
          else if ch = CHR ''+'' then map_option int (int_digits cs False 0)
          else map_option int (int_digits (ch # cs) False 0))"

text \<open>
  \<open>ord(ch.upper())\<close>: the code point of the upper-case form. Below 256 the letters
  \<open>a..z\<close> and \<open>0xE0..0xFE\<close> (without \<open>0xF7\<close>) move down by 32, \<open>0xFF\<close> and \<open>0xB5\<close>
  leave the range, and \<open>0xDF\<close> becomes the two characters \<open>SS\<close>, on which \<open>ord\<close>
  raises TypeError (\<open>None\<close> here).
\<close>

definition ord_upper :: "char \<Rightarrow> int option" where
  "ord_upper ch =
     (let k = (of_char ch :: int)
      in if 97 \<le> k \<and> k \<le> 122 then Some (k - 32)
         else if 224 \<le> k \<and> k \<le> 254 \<and> k \<noteq> 247 then Some (k - 32)
         else if k = 255 then Some 376
         else if k = 181 then Some 924
         else if k = 223 then None
         else Some k)"

section \<open>Board: geometry and coordinates\<close>

definition N :: int where "N = 13"
definition W :: int where "W = N + 2"
definition W2 :: int where "W2 = W * W"

text \<open>\<open>Board.neighbors\<close> and \<open>Board.diag_neighbors\<close>.\<close>

definition neighbors :: "int \<Rightarrow> int list" where
  "neighbors c = [c - 1, c + 1, c - W, c + W]"

definition diag_neighbors :: "int \<Rightarrow> int list" where
  "diag_neighbors c = [c - W - 1, c - W + 1, c + W - 1, c + W + 1]"

text \<open>
  \<open>Board.parse_coord\<close>. The return expression evaluates \<open>int(s[1:])\<close> before \<open>s[0]\<close>,
  so the empty string raises ValueError.
\<close>

definition parse_coord :: "string \<Rightarrow> error + int option" where
  "parse_coord s =
     (if s = ''pass'' then Inr None
      else case py_int (py_slice_from s 1) of
             None \<Rightarrow> Inl ValueError
           | Some k \<Rightarrow>
               (case py_index s 0 of
                  None \<Rightarrow> Inl IndexError
                | Some ch \<Rightarrow>
                    (case ord_upper ch of
                       None \<Rightarrow> Inl TypeError
                     | Some u \<Rightarrow> Inr (Some (W + 1 + (N - k) * W + (u - 65))))))"

text \<open>\<open>Board.str_coord\<close>; \<open>divmod\<close> floors, as \<open>div\<close> and \<open>mod\<close> on \<open>int\<close> do.\<close>

definition str_coord :: "int option \<Rightarrow> string" where
  "str_coord co =
     (case co of
        None \<Rightarrow> ''pass''
      | Some c \<Rightarrow>
          (let row = (c - (W + 1)) div W; col = (c - (W + 1)) mod W
           in char_of (col + 65) # str_int (N - row)))"

text \<open>The coordinates of the \<open>N\<close> by \<open>N\<close> playing area inside the bordered string.\<close>

definition on_board :: "int \<Rightarrow> bool" where
  "on_board c =
     (let row = (c - (W + 1)) div W; col = (c - (W + 1)) mod W
      in 0 \<le> row \<and> row < N \<and> col < N)"

section \<open>Board: the grid string\<close>

text \<open>\<open>sep.join(xs)\<close>, \<open>s.replace(a, b)\<close> and \<open>s.count(a)\<close> on single characters.\<close>

fun py_join :: "'a list \<Rightarrow> 'a list list \<Rightarrow> 'a list" where
  "py_join sep [] = []"
| "py_join sep [x] = x"
| "py_join sep (x # y # ys) = x @ sep @ py_join sep (y # ys)"

definition py_replace :: "string \<Rightarrow> char \<Rightarrow> char \<Rightarrow> string" where
  "py_replace s a b = map (\<lambda>ch. if ch = a then b else ch) s"

definition py_count :: "string \<Rightarrow> char \<Rightarrow> int" where
  "py_count s a = int (count_list s a)"

text \<open>
  \<open>s.find(ch, start)\<close>: the lowest index at or after \<open>start\<close> that holds \<open>ch\<close>, or -1;
  a negative \<open>start\<close> counts from the end and is clamped to 0.
\<close>

fun find_char :: "string \<Rightarrow> char \<Rightarrow> nat \<Rightarrow> int" where
  "find_char [] ch k = - 1"
| "find_char (a # as) ch k = (if a = ch then int k else find_char as ch (Suc k))"

definition py_find :: "string \<Rightarrow> char \<Rightarrow> int \<Rightarrow> int" where
  "py_find s ch start =
     (let k = (if 0 \<le> start then nat start else nat (int (length s) + start))
      in find_char (drop k s) ch k)"

text \<open>
  \<open>Board.empty\<close>: a row of \<open>N + 1\<close> spaces, \<open>N\<close> rows of a space and \<open>N\<close> points, a row
  of \<open>N + 2\<close> spaces, joined by newlines. The newline that ends a row is the right border
  of that row, so every row is \<open>W\<close> cells wide.
\<close>

definition empty :: string where
  "empty = py_join [CHR 0x0A]
     ([replicate (nat (N + 1)) CHR '' '']
      @ replicate (nat N) (CHR '' '' # replicate (nat N) CHR ''.'')
      @ [replicate (nat (N + 2)) CHR '' ''])"

text \<open>
  \<open>Board.__init__\<close>: \<open>self.board = board_data or self.empty\<close>. A Board value is its board
  string; an empty string is falsy, so it is replaced by the empty board.
\<close>

definition Board :: "string \<Rightarrow> string" where
  "Board board_data = (if board_data = [] then empty else board_data)"

text \<open>
  \<open>str.swapcase\<close> and \<open>Board.swapcase\<close>. The board alphabet is ASCII; \<open>swapcase_char\<close>
  exchanges the ASCII letters and is the source's \<open>swapcase\<close> on ASCII strings only
  (\<open>is_ascii\<close>, \<open>ascii\<close>), as is \<open>floodfill\<close> below, which the source runs on the UTF-8
  bytes of the board: on an ASCII board the bytes are the characters.
\<close>

definition is_ascii :: "char \<Rightarrow> bool" where
  "is_ascii ch = ((of_char ch :: nat) < 128)"

definition ascii :: "string \<Rightarrow> bool" where
  "ascii s = list_all is_ascii s"

definition swapcase_char :: "char \<Rightarrow> char" where
  "swapcase_char ch =
     (let k = (of_char ch :: nat)
      in if 65 \<le> k \<and> k \<le> 90 then char_of (k + 32)
         else if 97 \<le> k \<and> k \<le> 122 then char_of (k - 32)
         else ch)"

definition swapcase :: "string \<Rightarrow> string" where
  "swapcase board = Board (map swapcase_char board)"

text \<open>
  \<open>Board.floodfill\<close>. \<open>flood_visit\<close> is the \<open>for d in self.neighbors(c)\<close> loop: it marks
  the neighbours that hold \<open>p\<close> and pushes them on the fringe. The fringe is a stack; its
  top is the head of the list.
\<close>

fun flood_visit :: "char \<Rightarrow> string \<Rightarrow> int list \<Rightarrow> int list \<Rightarrow> error + string \<times> int list" where
  "flood_visit p bb [] fringe = Inr (bb, fringe)"
| "flood_visit p bb (d # ds) fringe =
     (case py_index bb d of
        None \<Rightarrow> Inl IndexError
      | Some q \<Rightarrow>
          if q = p then
            (case py_setitem bb d CHR ''#'' of
               None \<Rightarrow> Inl IndexError
             | Some bb' \<Rightarrow> flood_visit p bb' ds (d # fringe))
          else flood_visit p bb ds fringe)"

text \<open>
  The \<open>while fringe\<close> loop. When the colour \<open>p\<close> at the start is itself \<open>#\<close>, marking a
  cell changes nothing: a neighbour that holds \<open>#\<close> is pushed, popping it pushes the cell
  it came from again, and the fringe never empties. The loop then ends only if a neighbour
  index raises IndexError. \<open>flood_hash\<close> is the same loop for that colour, counted: the
  byte array no longer changes and the cell popped next is determined by the cell popped
  before, so among the first \<open>2 * len\<close> cells popped (there are \<open>2 * len\<close> valid indices,
  negative ones included) every cell that is ever popped occurs. If none of them raises,
  none ever does and the source does not return: that outcome is \<open>NoReturn\<close>.
\<close>

fun flood_hash :: "nat \<Rightarrow> string \<Rightarrow> int list \<Rightarrow> error + string" where
  "flood_hash 0 bb fringe = Inl NoReturn"
| "flood_hash (Suc k) bb [] = Inr bb"
| "flood_hash (Suc k) bb (c # fringe) =
     (case flood_visit CHR ''#'' bb (neighbors c) fringe of
        Inl e \<Rightarrow> Inl e
      | Inr (bb', fringe') \<Rightarrow> flood_hash k bb' fringe')"

function floodfill_loop :: "char \<Rightarrow> string \<Rightarrow> int list \<Rightarrow> error + string" where
  "floodfill_loop p bb [] = Inr bb"
| "floodfill_loop p bb (c # fringe) =
     (case flood_visit p bb (neighbors c) fringe of
        Inl e \<Rightarrow> Inl e
      | Inr (bb', fringe') \<Rightarrow>
          if p = CHR ''#'' \<and> length fringe < length fringe'
          then flood_hash (2 * length bb') bb' fringe'
          else floodfill_loop p bb' fringe')"
  by pat_completeness auto
termination
proof (relation "measure (\<lambda>(p, bb, fringe). 2 * count_list bb p + length fringe)")
  show "wf (measure (\<lambda>(p, bb, fringe). 2 * count_list bb p + length fringe))"
    by simp
next
  fix p :: char and bb :: string and c :: int and fringe :: "int list"
    and x2 :: "string \<times> int list" and bb' :: string and fringe' :: "int list"
  assume visit: "flood_visit p bb (neighbors c) fringe = Inr x2"
    and x2: "(bb', fringe') = x2"
    and go: "\<not> (p = CHR ''#'' \<and> length fringe < length fringe')"
  have upd: "count_list (xs[i := y]) p + 1 = count_list xs p"
    if "i < length xs" "xs ! i = p" "y \<noteq> p" for xs :: string and i y
    using that
  proof (induction xs arbitrary: i)
    case Nil
    then show ?case by simp
  next
    case (Cons a xs)
    then show ?case by (cases i) auto
  qed
  have set_count: "count_list cs p + 1 = count_list b p"
    if "py_index b d = Some p" "py_setitem b d CHR ''#'' = Some cs" "p \<noteq> CHR ''#''"
    for b cs :: string and d
    using that upd [of _ b "CHR ''#''"]
    by (auto simp: py_index_def py_setitem_def Let_def split: if_splits)
  have set_same: "cs = b"
    if "py_index b d = Some CHR ''#''" "py_setitem b d CHR ''#'' = Some cs"
    for b cs :: string and d
    using that
    by (auto simp: py_index_def py_setitem_def Let_def list_update_same_conv split: if_splits)
  have visit_facts:
    "length fr \<le> length fr'
     \<and> (p \<noteq> CHR ''#'' \<longrightarrow> count_list b' p + length fr' = count_list b p + length fr)
     \<and> (p = CHR ''#'' \<longrightarrow> b' = b)"
    if "flood_visit p b ds fr = Inr (b', fr')" for ds b fr b' fr'
    using that
  proof (induction ds arbitrary: b fr)
    case Nil
    then show ?case by simp
  next
    case (Cons d ds)
    show ?case
    proof (cases "py_index b d")
      case None
      with Cons.prems show ?thesis by simp
    next
      case (Some q)
      show ?thesis
      proof (cases "q = p")
        case False
        with Some Cons.prems have "flood_visit p b ds fr = Inr (b', fr')"
          by simp
        then show ?thesis by (rule Cons.IH)
      next
        case True
        with Some Cons.prems obtain cs where cs: "py_setitem b d CHR ''#'' = Some cs"
          and rest: "flood_visit p cs ds (d # fr) = Inr (b', fr')"
          by (auto split: option.splits)
        note ih = Cons.IH [OF rest]
        show ?thesis
        proof (cases "p = CHR ''#''")
          case True
          with Some \<open>q = p\<close> cs have "cs = b"
            using set_same by simp
          with ih True show ?thesis by simp
        next
          case False
          with Some \<open>q = p\<close> cs have "count_list cs p + 1 = count_list b p"
            using set_count by simp
          with ih False show ?thesis by simp
        qed
      qed
    qed
  qed
  from visit x2 have "flood_visit p bb (neighbors c) fringe = Inr (bb', fringe')"
    by simp
  from visit_facts [OF this] go
  show "((p, bb', fringe'), (p, bb, c # fringe))
          \<in> measure (\<lambda>(p, bb, fringe). 2 * count_list bb p + length fringe)"
    by (cases "p = CHR ''#''") auto
qed

definition floodfill :: "string \<Rightarrow> int \<Rightarrow> error + string" where
  "floodfill board c =
     (case py_index board c of
        None \<Rightarrow> Inl IndexError
      | Some p \<Rightarrow>
          (case py_setitem board c CHR ''#'' of
             None \<Rightarrow> Inl IndexError
           | Some byteboard \<Rightarrow>
               (case floodfill_loop p byteboard [c] of
                  Inl e \<Rightarrow> Inl e
                | Inr bb \<Rightarrow> Inr (Board bb))))"

text \<open>
  \<open>Board.is_eyeish\<close>: the loop over the neighbours, with \<open>eyecolor\<close> as its state.
\<close>

fun eyeish_loop :: "string \<Rightarrow> int list \<Rightarrow> char option \<Rightarrow> error + char option" where
  "eyeish_loop board [] eyecolor = Inr eyecolor"
| "eyeish_loop board (d # ds) eyecolor =
     (case py_index board d of
        None \<Rightarrow> Inl IndexError
      | Some q \<Rightarrow>
          if isspace q then eyeish_loop board ds eyecolor
          else if q = CHR ''.'' then Inr None
          else (case eyecolor of
                  None \<Rightarrow> eyeish_loop board ds (Some q)
                | Some e \<Rightarrow>
                    if q = swapcase_char e then Inr None
                    else eyeish_loop board ds eyecolor))"

definition is_eyeish :: "string \<Rightarrow> int \<Rightarrow> error + char option" where
  "is_eyeish board c = eyeish_loop board (neighbors c) None"

text \<open>
  \<open>Board.contact\<close>: the leftmost match of the regular expression
  \<open>#p | p# | # .{W-1} p | p .{W-1} #\<close> (with DOTALL), the alternatives tried in this order
  at each start. \<open>contact_scan\<close> walks the string; \<open>s\<close> is the index of the head of the
  remaining suffix. The result is \<open>m.start()\<close> if the match begins with \<open>p\<close>, else
  \<open>m.end() - 1\<close>. \<open>contact_res\<close> has the keys \<open>.\<close>, \<open>x\<close> and \<open>X\<close> only.
\<close>

definition nth_opt :: "'a list \<Rightarrow> nat \<Rightarrow> 'a option" where
  "nth_opt xs k = (if k < length xs then Some (xs ! k) else None)"

fun contact_scan :: "string \<Rightarrow> char \<Rightarrow> int \<Rightarrow> int option" where
  "contact_scan [] p s = None"
| "contact_scan (a # rest) p s =
     (if a = CHR ''#'' \<and> nth_opt rest 0 = Some p then Some (if a = p then s else s + 1)
      else if a = p \<and> nth_opt rest 0 = Some CHR ''#'' then Some s
      else if a = CHR ''#'' \<and> nth_opt rest (nat (W - 1)) = Some p
           then Some (if a = p then s else s + W)
      else if a = p \<and> nth_opt rest (nat (W - 1)) = Some CHR ''#'' then Some s
      else contact_scan rest p (s + 1))"

definition contact :: "string \<Rightarrow> char \<Rightarrow> error + int option" where
  "contact board p =
     (if p = CHR ''.'' \<or> p = CHR ''x'' \<or> p = CHR ''X'' then Inr (contact_scan board p 0)
      else Inl KeyError)"

text \<open>\<open>Board.board_put\<close>: none in, none out; the slices never raise.\<close>

definition board_put :: "string \<Rightarrow> int option \<Rightarrow> char \<Rightarrow> string option" where
  "board_put board co p =
     (case co of
        None \<Rightarrow> None
      | Some c \<Rightarrow> Some (Board (py_slice_to board c @ [p] @ py_slice_from board (c + 1))))"

section \<open>Position\<close>

text \<open>
  The fields of \<open>Position\<close>; \<open>last\<close> is written \<open>last_mv\<close>. The komi is a float, modelled
  as a real number. The \<open>board\<close> field holds a Board: in a \<open>position\<close> the Board is the value
  of its board string; in a \<open>position_obj\<close> (further down) it is a reference to a Board object.
\<close>

record 'b position_of =
  board :: 'b
  captures :: "int \<times> int"
  n :: int
  ko :: "int option"
  last_mv :: "int option"
  last2 :: "int option"
  komi :: real

type_synonym position = "string position_of"

text \<open>
  The capture loop of \<open>Position.move\<close>: \<open>for d in Board.neighbors(c)\<close>, with the working
  board, \<open>capt_X\<close> and \<open>singlecaps\<close> as its state.
\<close>

fun capture_loop :: "string \<Rightarrow> int list \<Rightarrow> int \<Rightarrow> int list \<Rightarrow> error + string \<times> int \<times> int list" where
  "capture_loop b [] capt_X singlecaps = Inr (b, capt_X, singlecaps)"
| "capture_loop b (d # ds) capt_X singlecaps =
     (case py_index b d of
        None \<Rightarrow> Inl IndexError
      | Some q \<Rightarrow>
          if q \<noteq> CHR ''x'' then capture_loop b ds capt_X singlecaps
          else
            (case floodfill b d of
               Inl e \<Rightarrow> Inl e
             | Inr fboard \<Rightarrow>
                 (case contact fboard CHR ''.'' of
                    Inl e \<Rightarrow> Inl e
                  | Inr (Some l) \<Rightarrow> capture_loop b ds capt_X singlecaps
                  | Inr None \<Rightarrow>
                      (let capcount = py_count fboard CHR ''#''
                       in capture_loop (py_replace fboard CHR ''#'' CHR ''.'') ds
                            (capt_X + capcount)
                            (if capcount = 1 then singlecaps @ [d] else singlecaps)))))"

text \<open>
  \<open>Position.move\<close>. The first test compares \<open>c\<close> with \<open>self.komi\<close>, as the source does.
  The result is \<open>Inr None\<close> where the source returns \<open>None\<close>.
\<close>

definition move :: "position \<Rightarrow> int \<Rightarrow> error + position option" where
  "move p c =
     (if of_int c = komi p then Inr None
      else
        (case is_eyeish (board p) c of
           Inl e \<Rightarrow> Inl e
         | Inr eyecolor \<Rightarrow>
             (let in_enemy_eye = (eyecolor = Some CHR ''x'')
              in case board_put (board p) (Some c) CHR ''X'' of
                   None \<Rightarrow> Inl AttributeError
                 | Some b \<Rightarrow>
                     (case capture_loop b (neighbors c) (fst (captures p)) [] of
                        Inl e \<Rightarrow> Inl e
                      | Inr (b', capt_X, singlecaps) \<Rightarrow>
                          (let ko' = (if in_enemy_eye \<and> length singlecaps = 1
                                      then Some (hd singlecaps) else None)
                           in case floodfill b' c of
                                Inl e \<Rightarrow> Inl e
                              | Inr sfboard \<Rightarrow>
                                  (case contact sfboard CHR ''.'' of
                                     Inl e \<Rightarrow> Inl e
                                   | Inr None \<Rightarrow> Inr None
                                   | Inr (Some l) \<Rightarrow>
                                       Inr (Some \<lparr>board = swapcase b',
                                                  captures = (snd (captures p), capt_X),
                                                  n = n p + 1, ko = ko', last_mv = Some c,
                                                  last2 = last_mv p, komi = komi p\<rparr>)))))))"

text \<open>\<open>Position.pass_move\<close> and \<open>empty_position\<close>.\<close>

definition pass_move :: "position \<Rightarrow> position" where
  "pass_move p =
     \<lparr>board = swapcase (board p), captures = (snd (captures p), fst (captures p)),
      n = n p + 1, ko = None, last_mv = None, last2 = last_mv p, komi = komi p\<rparr>"

definition empty_position :: position where
  "empty_position =
     \<lparr>board = Board [], captures = (0, 0), n = 0, ko = None, last_mv = None, last2 = None,
      komi = 7.5\<rparr>"

text \<open>
  \<open>Position.score\<close>. The local \<open>board\<close> starts as the Board object \<open>self.board\<close> (\<open>None\<close>
  here) and becomes a string in the loop; every pass of the loop flood-fills
  \<open>self.board\<close>.
\<close>

function score_loop :: "string \<Rightarrow> int \<Rightarrow> string option \<Rightarrow> error + string option" where
  "score_loop sb i b =
     (let j = py_find sb CHR ''.'' (i + 1)
      in if j = - 1 then Inr b
         else
           (case floodfill sb j of
              Inl e \<Rightarrow> Inl e
            | Inr fboard \<Rightarrow>
                (case contact fboard CHR ''X'' of
                   Inl e \<Rightarrow> Inl e
                 | Inr cX \<Rightarrow>
                     (case contact fboard CHR ''x'' of
                        Inl e \<Rightarrow> Inl e
                      | Inr cx \<Rightarrow>
                          (let touches_X = (cX \<noteq> None); touches_x = (cx \<noteq> None)
                           in if touches_X \<and> \<not> touches_x
                              then score_loop sb j (Some (py_replace fboard CHR ''#'' CHR ''X''))
                              else if touches_x \<and> \<not> touches_X
                              then score_loop sb j (Some (py_replace fboard CHR ''#'' CHR ''x''))
                              else score_loop sb j (Some (py_replace fboard CHR ''#'' CHR '':'')))))))"
  by pat_completeness auto
termination
proof (relation "measure (\<lambda>(sb, i, b). nat (int (length sb) - i))")
  show "wf (measure (\<lambda>(sb, i, b). nat (int (length sb) - i)))"
    by simp
next
  have fc: "find_char xs ch k = - 1 \<or> (int k \<le> find_char xs ch k \<and> find_char xs ch k < int k + int (length xs))"
    for xs ch k
    by (induction xs arbitrary: k) (auto, force+)
  have bound: "py_find sb ch (i + 1) = - 1 \<or> (i < py_find sb ch (i + 1) \<and> py_find sb ch (i + 1) < int (length sb))"
    for sb ch i
    using fc [of "drop (if 0 \<le> i + 1 then nat (i + 1) else nat (int (length sb) + (i + 1))) sb" ch
        "if 0 \<le> i + 1 then nat (i + 1) else nat (int (length sb) + (i + 1))"]
    by (auto simp: py_find_def Let_def split: if_splits)
  fix sb :: string and i :: int and b :: "string option" and j :: int
  assume "j = py_find sb CHR ''.'' (i + 1)" "j \<noteq> - 1"
  then have "i < j \<and> j < int (length sb)"
    using bound [of sb "CHR ''.''" i] by simp
  then have "((sb, j, b'), (sb, i, b)) \<in> measure (\<lambda>(sb, i, b). nat (int (length sb) - i))" for b'
    by simp
  then show "\<And>x2 x2a x2b xa xb. ((sb, j, Some (py_replace x2 CHR ''#'' CHR ''X'')), sb, i, b)
          \<in> measure (\<lambda>(sb, i, b). nat (int (length sb) - i))"
    and "\<And>x2 x2a x2b xa xb. ((sb, j, Some (py_replace x2 CHR ''#'' CHR ''x'')), sb, i, b)
          \<in> measure (\<lambda>(sb, i, b). nat (int (length sb) - i))"
    and "\<And>x2 x2a x2b xa xb. ((sb, j, Some (py_replace x2 CHR ''#'' CHR '':'')), sb, i, b)
          \<in> measure (\<lambda>(sb, i, b). nat (int (length sb) - i))"
    by blast+
qed

declare score_loop.simps [simp del]

text \<open>The owner-map loop \<open>for c in range(W * W)\<close> of \<open>score\<close>.\<close>

fun owner_loop :: "string \<Rightarrow> int \<Rightarrow> int list \<Rightarrow> int list \<Rightarrow> error + int list" where
  "owner_loop b sg [] owner_map = Inr owner_map"
| "owner_loop b sg (c # cs) owner_map =
     (case py_index b c of
        None \<Rightarrow> Inl IndexError
      | Some q \<Rightarrow>
          (let k = (if q = CHR ''X'' then 1 else if q = CHR ''x'' then - 1 else 0)
           in case py_index owner_map c of
                None \<Rightarrow> Inl IndexError
              | Some old \<Rightarrow>
                  (case py_setitem owner_map c (old + k * sg) of
                     None \<Rightarrow> Inl IndexError
                   | Some owner_map' \<Rightarrow> owner_loop b sg cs owner_map')))"

definition score :: "position \<Rightarrow> int list option \<Rightarrow> error + real \<times> int list option" where
  "score p owner_map =
     (case score_loop (board p) 0 None of
        Inl e \<Rightarrow> Inl e
      | Inr bo \<Rightarrow>
          (let komi' = (if n p mod 2 = 1 then komi p else - komi p)
           in case owner_map of
                None \<Rightarrow>
                  (case bo of
                     None \<Rightarrow> Inl AttributeError
                   | Some b \<Rightarrow>
                       Inr (of_int (py_count b CHR ''X'' - py_count b CHR ''x'') + komi', None))
              | Some om \<Rightarrow>
                  (case bo of
                     None \<Rightarrow> Inl TypeError
                   | Some b \<Rightarrow>
                       (case owner_loop b (if n p mod 2 = 0 then 1 else - 1) [0..W * W - 1] om of
                          Inl e \<Rightarrow> Inl e
                        | Inr om' \<Rightarrow>
                            Inr (of_int (py_count b CHR ''X'' - py_count b CHR ''x'') + komi',
                                 Some om')))))"

section \<open>Positions the engine can produce\<close>

text \<open>
  The cells a Position's board may hold: a point, a stone of either side, or whitespace
  (the border). The flood-fill and scoring markers \<open>#\<close>, \<open>L\<close>, \<open>%\<close> and \<open>:\<close> are not
  among them.
\<close>

definition cell_ok :: "char \<Rightarrow> bool" where
  "cell_ok ch = (ch = CHR ''.'' \<or> ch = CHR ''X'' \<or> ch = CHR ''x'' \<or> isspace ch)"

text \<open>
  The Positions reachable from \<open>empty_position()\<close> by calls of \<open>move\<close> (at any coordinate
  for which it returns a Position) and \<open>pass_move\<close>.
\<close>

inductive reachable :: "position \<Rightarrow> bool" where
  start: "reachable empty_position"
| by_move: "reachable p \<Longrightarrow> move p c = Inr (Some p') \<Longrightarrow> reachable p'"
| by_pass: "reachable p \<Longrightarrow> reachable (pass_move p)"

section \<open>The scoring the specification describes\<close>

text \<open>
  Modelled from the spec's words, for comparison with \<open>score\<close>: every empty region is
  flood-filled once, on the board that already carries the labels of the regions before
  it, and the count is taken over the board with all regions labelled. The fuel bounds the
  number of regions by the number of cells.
\<close>

fun label_regions :: "nat \<Rightarrow> string \<Rightarrow> error + string" where
  "label_regions 0 b = Inr b"
| "label_regions (Suc k) b =
     (let j = py_find b CHR ''.'' 0
      in if j = - 1 then Inr b
         else
           (case floodfill b j of
              Inl e \<Rightarrow> Inl e
            | Inr fboard \<Rightarrow>
                (case contact fboard CHR ''X'' of
                   Inl e \<Rightarrow> Inl e
                 | Inr cX \<Rightarrow>
                     (case contact fboard CHR ''x'' of
                        Inl e \<Rightarrow> Inl e
                      | Inr cx \<Rightarrow>
                          (if cX \<noteq> None \<and> cx = None
                           then label_regions k (py_replace fboard CHR ''#'' CHR ''X'')
                           else if cx \<noteq> None \<and> cX = None
                           then label_regions k (py_replace fboard CHR ''#'' CHR ''x'')
                           else label_regions k (py_replace fboard CHR ''#'' CHR '':''))))))"

definition score_all_regions :: "position \<Rightarrow> error + real" where
  "score_all_regions p =
     (case label_regions (length (board p)) (board p) of
        Inl e \<Rightarrow> Inl e
      | Inr b \<Rightarrow>
          Inr (of_int (py_count b CHR ''X'' - py_count b CHR ''x'')
               + (if n p mod 2 = 1 then komi p else - komi p)))"

section \<open>Example positions\<close>

text \<open>A board written as its rows: the rows are joined by newlines, as \<open>Board.empty\<close> is.\<close>

definition rows :: "string list \<Rightarrow> string" where
  "rows rs = py_join [CHR 0x0A] rs"

text \<open>
  A ko: the white stone at 111 has its last liberty at 112, a point whose four
  neighbours are all white. White is \<open>x\<close>, Black (\<open>X\<close>) is to move.
\<close>

definition ko_board :: string where
  "ko_board = rows
     [''              '',
      '' .............'',
      '' .............'',
      '' .............'',
      '' .............'',
      '' .............'',
      '' .....Xx......'',
      '' ....Xx.x.....'',
      '' .....Xx......'',
      '' .............'',
      '' .............'',
      '' .............'',
      '' .............'',
      '' .............'',
      ''               '']"

definition ko_board_taken :: string where
  "ko_board_taken = rows
     [''              '',
      '' .............'',
      '' .............'',
      '' .............'',
      '' .............'',
      '' .............'',
      '' .....xX......'',
      '' ....x.xX.....'',
      '' .....xX......'',
      '' .............'',
      '' .............'',
      '' .............'',
      '' .............'',
      '' .............'',
      ''               '']"

definition ko_before :: position where
  "ko_before =
     \<lparr>board = ko_board, captures = (0, 0), n = 7, ko = None, last_mv = Some 113,
      last2 = Some 126, komi = 7.5\<rparr>"

definition ko_after :: position where
  "ko_after =
     \<lparr>board = ko_board_taken, captures = (0, 1), n = 8, ko = Some 111, last_mv = Some 112,
      last2 = Some 113, komi = 7.5\<rparr>"

definition ko_retaken :: position where
  "ko_retaken =
     \<lparr>board = ko_board, captures = (1, 1), n = 9, ko = Some 112, last_mv = Some 111,
      last2 = Some 112, komi = 7.5\<rparr>"

text \<open>
  A finished game: the to-move side owns the left seven columns with two one-point eyes
  (16 and 18), the other side the right six columns with two one-point eyes (26 and 28).
\<close>

definition final_board :: string where
  "final_board = rows
     [''              '',
      '' .X.XXXXxxx.x.'',
      '' XXXXXXXxxxxxx'',
      '' XXXXXXXxxxxxx'',
      '' XXXXXXXxxxxxx'',
      '' XXXXXXXxxxxxx'',
      '' XXXXXXXxxxxxx'',
      '' XXXXXXXxxxxxx'',
      '' XXXXXXXxxxxxx'',
      '' XXXXXXXxxxxxx'',
      '' XXXXXXXxxxxxx'',
      '' XXXXXXXxxxxxx'',
      '' XXXXXXXxxxxxx'',
      '' XXXXXXXxxxxxx'',
      ''               '']"

definition final_position :: position where
  "final_position =
     \<lparr>board = final_board, captures = (0, 0), n = 200, ko = None, last_mv = None,
      last2 = None, komi = 7.5\<rparr>"

text \<open>The position after the first move of a game, at 112.\<close>

definition first_move :: position where
  "first_move =
     \<lparr>board = rows
        [''              '',
         '' .............'',
         '' .............'',
         '' .............'',
         '' .............'',
         '' .............'',
         '' .............'',
         '' ......x......'',
         '' .............'',
         '' .............'',
         '' .............'',
         '' .............'',
         '' .............'',
         '' .............'',
         ''               ''],
      captures = (0, 0), n = 1, ko = None, last_mv = Some 112, last2 = None, komi = 7.5\<rparr>"

section \<open>Well-shaped boards\<close>

text \<open>
  A coordinate is interior when its four neighbours are indices of the \<open>W * W\<close> string.
  A board is framed when it is an ASCII string of \<open>W * W\<close> cells and every cell outside the
  playing area is whitespace, as in \<open>Board.empty\<close>.
\<close>

definition interior :: "int \<Rightarrow> bool" where
  "interior c = (W \<le> c \<and> c < W2 - W)"

definition frame_ok :: "string \<Rightarrow> bool" where
  "frame_ok b =
     (int (length b) = W2 \<and> ascii b
      \<and> list_all (\<lambda>i. on_board (int i) \<or> isspace (b ! i)) [0..<length b])"

section \<open>TreeNode\<close>

text \<open>The prior constants of \<open>tree_node.py\<close>.\<close>

definition PRIOR_EVEN :: real where "PRIOR_EVEN = 10"
definition PRIOR_SELFATARI :: real where "PRIOR_SELFATARI = 10"
definition PRIOR_CAPTURE_ONE :: real where "PRIOR_CAPTURE_ONE = 15"
definition PRIOR_CAPTURE_MANY :: real where "PRIOR_CAPTURE_MANY = 30"
definition PRIOR_PAT3 :: real where "PRIOR_PAT3 = 10"
definition PRIOR_LARGEPATTERN :: real where "PRIOR_LARGEPATTERN = 100"
definition PRIOR_CFG :: "real list" where "PRIOR_CFG = [24, 22, 8]"
definition PRIOR_EMPTYAREA :: real where "PRIOR_EMPTYAREA = 10"

text \<open>
  The fields of \<open>TreeNode\<close>. The counters are Python integers; the priors become floats
  (\<open>PRIOR_EVEN/2\<close>, the square root of a pattern probability) and are modelled as real
  numbers. A node is an object: \<open>children\<close> holds references, and a tree is the store of
  its nodes.
\<close>

record tree_node =
  pos :: position
  v :: int
  w :: int
  pv :: real
  pw :: real
  av :: int
  aw :: int
  children :: "nat list option"

type_synonym tree = "nat \<Rightarrow> tree_node"

text \<open>\<open>TreeNode.__init__\<close>.\<close>

definition TreeNode :: "position \<Rightarrow> tree_node" where
  "TreeNode ps =
     \<lparr>pos = ps, v = 0, w = 0, pv = PRIOR_EVEN, pw = PRIOR_EVEN / 2, av = 0, aw = 0,
      children = None\<rparr>"

text \<open>Python's \<open>/\<close> on numbers: a zero divisor raises ZeroDivisionError.\<close>

definition py_truediv :: "real \<Rightarrow> real \<Rightarrow> error + real" where
  "py_truediv a b = (if b = 0 then Inl ZeroDivisionError else Inr (a / b))"

text \<open>
  \<open>TreeNode.rave_urgency\<close>. \<open>RAVE_EQUIV\<close> is imported from \<open>const\<close>, which is not among
  the sources: it is a parameter here. Every division of the source is a \<open>py_truediv\<close>.
\<close>

definition rave_urgency :: "real \<Rightarrow> tree_node \<Rightarrow> error + real" where
  "rave_urgency RAVE_EQUIV node =
     (let v' = of_int (v node) + pv node
      in case py_truediv (of_int (w node) + pw node) v' of
           Inl e \<Rightarrow> Inl e
         | Inr expectation \<Rightarrow>
             if av node = 0 then Inr expectation
             else
               (case py_truediv (of_int (aw node)) (of_int (av node)) of
                  Inl e \<Rightarrow> Inl e
                | Inr rave_expectation \<Rightarrow>
                    (case py_truediv (v' * of_int (av node)) RAVE_EQUIV of
                       Inl e \<Rightarrow> Inl e
                     | Inr scaled \<Rightarrow>
                         (case py_truediv (of_int (av node)) (of_int (av node) + v' + scaled) of
                            Inl e \<Rightarrow> Inl e
                          | Inr beta \<Rightarrow>
                              Inr (beta * rave_expectation + (1 - beta) * expectation)))))"

text \<open>
  The nodes the engine creates: a node starts as \<open>TreeNode(pos)\<close> and is changed only by
  the assignments of \<open>expand\<close> (the priors, each at its own place in the source, and
  \<open>children\<close>), of \<open>tree_descend\<close> (\<open>v += 1\<close>) and of \<open>tree_update\<close> (\<open>w\<close>, and \<open>aw\<close>
  with \<open>av\<close>). The boolean is the Python boolean that is added as 0 or 1.
\<close>

inductive engine_node :: "tree_node \<Rightarrow> bool" where
  created: "engine_node (TreeNode ps)"
| capture_many:
    "engine_node nd \<Longrightarrow>
     engine_node (nd\<lparr>pv := pv nd + PRIOR_CAPTURE_MANY, pw := pw nd + PRIOR_CAPTURE_MANY\<rparr>)"
| capture_one:
    "engine_node nd \<Longrightarrow>
     engine_node (nd\<lparr>pv := pv nd + PRIOR_CAPTURE_ONE, pw := pw nd + PRIOR_CAPTURE_ONE\<rparr>)"
| pat3:
    "engine_node nd \<Longrightarrow> engine_node (nd\<lparr>pv := pv nd + PRIOR_PAT3, pw := pw nd + PRIOR_PAT3\<rparr>)"
| cfg:
    "engine_node nd \<Longrightarrow> py_index PRIOR_CFG j = Some k \<Longrightarrow>
     engine_node (nd\<lparr>pv := pv nd + k, pw := pw nd + k\<rparr>)"
| empty_area_low:
    "engine_node nd \<Longrightarrow> engine_node (nd\<lparr>pv := pv nd + PRIOR_EMPTYAREA, pw := pw nd + 0\<rparr>)"
| empty_area_third:
    "engine_node nd \<Longrightarrow>
     engine_node (nd\<lparr>pv := pv nd + PRIOR_EMPTYAREA, pw := pw nd + PRIOR_EMPTYAREA\<rparr>)"
| self_atari:
    "engine_node nd \<Longrightarrow> engine_node (nd\<lparr>pv := pv nd + PRIOR_SELFATARI, pw := pw nd + 0\<rparr>)"
| large_pattern:
    "engine_node nd \<Longrightarrow> 0.001 < patternprob \<Longrightarrow>
     engine_node (nd\<lparr>pv := pv nd + sqrt patternprob * PRIOR_LARGEPATTERN,
                     pw := pw nd + sqrt patternprob * PRIOR_LARGEPATTERN\<rparr>)"
| expanded: "engine_node nd \<Longrightarrow> engine_node (nd\<lparr>children := Some cs\<rparr>)"
| descended: "engine_node nd \<Longrightarrow> engine_node (nd\<lparr>v := v nd + 1\<rparr>)"
| won: "engine_node nd \<Longrightarrow> engine_node (nd\<lparr>w := w nd + (if lost then 1 else 0)\<rparr>)"
| amaf:
    "engine_node nd \<Longrightarrow>
     engine_node (nd\<lparr>aw := aw nd + (if wins then 1 else 0), av := av nd + 1\<rparr>)"

section \<open>Search: tree_update\<close>

text \<open>
  The inner loop of \<open>tree_update\<close>, \<open>for child in node.children\<close>: the children are
  node objects in the store, and the loop adds to their \<open>aw\<close> and \<open>av\<close> in place.
\<close>

fun amaf_children :: "int list \<Rightarrow> int \<Rightarrow> real \<Rightarrow> nat list \<Rightarrow> tree \<Rightarrow> error + tree" where
  "amaf_children amaf_map amaf_map_value sc [] t = Inr t"
| "amaf_children amaf_map amaf_map_value sc (child # rest) t =
     (case last_mv (pos (t child)) of
        None \<Rightarrow> amaf_children amaf_map amaf_map_value sc rest t
      | Some c \<Rightarrow>
          (case py_index amaf_map c of
             None \<Rightarrow> Inl IndexError
           | Some a \<Rightarrow>
               if a = amaf_map_value
               then amaf_children amaf_map amaf_map_value sc rest
                      (t(child := (t child)\<lparr>aw := aw (t child) + (if 0 < sc then 1 else 0),
                                             av := av (t child) + 1\<rparr>))
               else amaf_children amaf_map amaf_map_value sc rest t))"

text \<open>
  The outer loop \<open>for node in reversed(nodes)\<close>, over the already reversed path, with
  \<open>score\<close> negated after every node. The \<open>disp\<close> printing is left out.
\<close>

fun update_path :: "nat list \<Rightarrow> int list \<Rightarrow> real \<Rightarrow> tree \<Rightarrow> error + tree" where
  "update_path [] amaf_map sc t = Inr t"
| "update_path (node # rest) amaf_map sc t =
     (let t1 = t(node := (t node)\<lparr>w := w (t node) + (if sc < 0 then 1 else 0)\<rparr>);
          amaf_map_value = (if n (pos (t1 node)) mod 2 = 0 then 1 else - 1)
      in case (case children (t1 node) of
                 None \<Rightarrow> Inr t1
               | Some cs \<Rightarrow> amaf_children amaf_map amaf_map_value sc cs t1) of
           Inl e \<Rightarrow> Inl e
         | Inr t2 \<Rightarrow> update_path rest amaf_map (- sc) t2)"

definition tree_update :: "nat list \<Rightarrow> int list \<Rightarrow> real \<Rightarrow> tree \<Rightarrow> error + tree" where
  "tree_update nodes amaf_map sc t = update_path (rev nodes) amaf_map sc t"

text \<open>
  A tree with amounts added to the \<open>w\<close>, \<open>aw\<close> and \<open>av\<close> of its nodes: what a backup
  does to the store.
\<close>

definition shifted :: "(nat \<Rightarrow> int) \<Rightarrow> (nat \<Rightarrow> int) \<Rightarrow> (nat \<Rightarrow> int) \<Rightarrow> tree \<Rightarrow> tree" where
  "shifted dw daw dav t =
     (\<lambda>r. (t r)\<lparr>w := w (t r) + dw r, aw := aw (t r) + daw r, av := av (t r) + dav r\<rparr>)"

section \<open>Board and Position as objects\<close>

text \<open>
  Python strings are immutable, but a Board is an object with an assignable attribute
  \<open>board\<close>, and \<open>Position.move\<close> assigns it (\<open>board.board = ...\<close>). The store holds the
  Board objects: a reference is an index and the cell is the object's board string. A new
  object is appended. The fields of a Position are assigned in \<open>__init__\<close> only, so a
  Position is a value whose \<open>board\<close> field is a reference.
\<close>

type_synonym heap = "string list"

type_synonym position_obj = "nat position_of"

text \<open>The Position a Position object stands for in a store.\<close>

definition value_of :: "heap \<Rightarrow> position_obj \<Rightarrow> position" where
  "value_of h p =
     \<lparr>board = h ! board p, captures = captures p, n = n p, ko = ko p, last_mv = last_mv p,
      last2 = last2 p, komi = komi p\<rparr>"

text \<open>
  \<open>Board.floodfill\<close>, \<open>Board.swapcase\<close> and \<open>Board.board_put\<close> as methods: each reads the
  receiver's string and returns a reference to a new Board.
\<close>

definition Board_floodfill :: "nat \<Rightarrow> int \<Rightarrow> heap \<Rightarrow> (error + nat) \<times> heap" where
  "Board_floodfill self c h =
     (case floodfill (h ! self) c of
        Inl e \<Rightarrow> (Inl e, h)
      | Inr s \<Rightarrow> (Inr (length h), h @ [s]))"

definition Board_swapcase :: "nat \<Rightarrow> heap \<Rightarrow> nat \<times> heap" where
  "Board_swapcase self h = (length h, h @ [swapcase (h ! self)])"

definition Board_board_put :: "nat \<Rightarrow> int option \<Rightarrow> char \<Rightarrow> heap \<Rightarrow> nat option \<times> heap" where
  "Board_board_put self co p h =
     (case board_put (h ! self) co p of
        None \<Rightarrow> (None, h)
      | Some s \<Rightarrow> (Some (length h), h @ [s]))"

text \<open>
  The capture loop of \<open>Position.move\<close> on objects: \<open>b\<close> is the local \<open>board\<close>, whose
  attribute the loop assigns in place.
\<close>

fun capture_loop_obj ::
  "nat \<Rightarrow> int list \<Rightarrow> int \<Rightarrow> int list \<Rightarrow> heap \<Rightarrow> (error + int \<times> int list) \<times> heap" where
  "capture_loop_obj b [] capt_X singlecaps h = (Inr (capt_X, singlecaps), h)"
| "capture_loop_obj b (d # ds) capt_X singlecaps h =
     (case py_index (h ! b) d of
        None \<Rightarrow> (Inl IndexError, h)
      | Some q \<Rightarrow>
          if q \<noteq> CHR ''x'' then capture_loop_obj b ds capt_X singlecaps h
          else
            (case Board_floodfill b d h of
               (Inl e, h1) \<Rightarrow> (Inl e, h1)
             | (Inr fboard, h1) \<Rightarrow>
                 (case contact (h1 ! fboard) CHR ''.'' of
                    Inl e \<Rightarrow> (Inl e, h1)
                  | Inr (Some l) \<Rightarrow> capture_loop_obj b ds capt_X singlecaps h1
                  | Inr None \<Rightarrow>
                      (let capcount = py_count (h1 ! fboard) CHR ''#''
                       in capture_loop_obj b ds (capt_X + capcount)
                            (if capcount = 1 then singlecaps @ [d] else singlecaps)
                            (h1[b := py_replace (h1 ! fboard) CHR ''#'' CHR ''.''])))))"

text \<open>\<open>Position.move\<close> and \<open>Position.pass_move\<close> on objects.\<close>

definition Position_move ::
  "position_obj \<Rightarrow> int \<Rightarrow> heap \<Rightarrow> (error + position_obj option) \<times> heap" where
  "Position_move self c h =
     (if of_int c = komi self then (Inr None, h)
      else
        (case is_eyeish (h ! board self) c of
           Inl e \<Rightarrow> (Inl e, h)
         | Inr eyecolor \<Rightarrow>
             (let in_enemy_eye = (eyecolor = Some CHR ''x'')
              in case Board_board_put (board self) (Some c) CHR ''X'' h of
                   (None, h1) \<Rightarrow> (Inl AttributeError, h1)
                 | (Some b, h1) \<Rightarrow>
                     (case capture_loop_obj b (neighbors c) (fst (captures self)) [] h1 of
                        (Inl e, h2) \<Rightarrow> (Inl e, h2)
                      | (Inr (capt_X, singlecaps), h2) \<Rightarrow>
                          (let ko' = (if in_enemy_eye \<and> length singlecaps = 1
                                      then Some (hd singlecaps) else None)
                           in case Board_floodfill b c h2 of
                                (Inl e, h3) \<Rightarrow> (Inl e, h3)
                              | (Inr sfboard, h3) \<Rightarrow>
                                  (case contact (h3 ! sfboard) CHR ''.'' of
                                     Inl e \<Rightarrow> (Inl e, h3)
                                   | Inr None \<Rightarrow> (Inr None, h3)
                                   | Inr (Some l) \<Rightarrow>
                                       (case Board_swapcase b h3 of
                                          (nb, h4) \<Rightarrow>
                                            (Inr (Some \<lparr>board = nb,
                                                  captures = (snd (captures self), capt_X),
                                                  n = n self + 1, ko = ko', last_mv = Some c,
                                                  last2 = last_mv self, komi = komi self\<rparr>),
                                             h4))))))))"

definition Position_pass_move :: "position_obj \<Rightarrow> heap \<Rightarrow> position_obj \<times> heap" where
  "Position_pass_move self h =
     (case Board_swapcase (board self) h of
        (nb, h1) \<Rightarrow>
          (\<lparr>board = nb, captures = (snd (captures self), fst (captures self)),
            n = n self + 1, ko = None, last_mv = None, last2 = last_mv self, komi = komi self\<rparr>,
           h1))"

section \<open>Example objects\<close>

text \<open>The position \<open>ko_before\<close> as an object whose Board is the object 0 of the store.\<close>

definition ko_obj :: position_obj where
  "ko_obj =
     \<lparr>board = 0, captures = (0, 0), n = 7, ko = None, last_mv = Some 113, last2 = Some 126,
      komi = 7.5\<rparr>"

text \<open>
  A node that was visited once and counted once in a won all-moves-as-first update.
\<close>

definition visited_node :: tree_node where
  "visited_node = (TreeNode first_move)\<lparr>v := 1, av := 1, aw := 1\<rparr>"

text \<open>
  A small tree: the root 0 (the empty position, to move at ply 0) with the children 1
  (the move 112) and 2 (the move 113); two playouts through it, each with its path, its
  map of first moves and its score.
\<close>

definition small_tree :: tree where
  "small_tree =
     (\<lambda>r. TreeNode empty_position)
       (0 := (TreeNode empty_position)\<lparr>children := Some [1, 2]\<rparr>,
        1 := TreeNode first_move,
        2 := TreeNode (first_move\<lparr>last_mv := Some 113\<rparr>))"

definition amaf_one :: "int list" where
  "amaf_one = (replicate 225 0)[112 := 1, 113 := 1]"

definition amaf_two :: "int list" where
  "amaf_two = (replicate 225 0)[113 := 1, 112 := - 1]"

section \<open>The Monte Carlo playout\<close>









section \<open>Coordinate strings\<close>

lemma isdigit_digit_char: "d < 10 \<Longrightarrow> isdigit (digit_char d)"
  by (simp add: isdigit_def digit_char_def)

lemma of_char_digit_char: "d < 10 \<Longrightarrow> (of_char (digit_char d) :: nat) = 48 + d"
  by (simp add: digit_char_def)

lemma int_digits_append_digit:
  "int_digits cs prev acc = Some k \<Longrightarrow> d < 10 \<Longrightarrow>
   int_digits (cs @ [digit_char d]) prev acc = Some (10 * k + d)"
proof (induction cs prev acc rule: int_digits.induct)
  case (1 prev acc)
  then show ?case
    by (simp add: isdigit_digit_char of_char_digit_char split: if_splits)
next
  case (2 ch cs prev acc)
  then show ?case
    by (auto split: if_splits list.splits)
qed

lemma int_digits_str_nat: "int_digits (str_nat k) False 0 = Some k"
proof (induction k rule: str_nat.induct)
  case (1 k)
  show ?case
  proof (cases "k < 10")
    case True
    then show ?thesis
      by (subst str_nat.simps) (simp add: isdigit_digit_char of_char_digit_char)
  next
    case False
    then have ih: "int_digits (str_nat (k div 10)) False 0 = Some (k div 10)"
      using 1 by simp
    have "int_digits (str_nat (k div 10) @ [digit_char (k mod 10)]) False 0
            = Some (10 * (k div 10) + k mod 10)"
      by (rule int_digits_append_digit [OF ih]) simp
    with False show ?thesis
      by (subst str_nat.simps) simp
  qed
qed

lemma str_nat_digits: "ch \<in> set (str_nat k) \<Longrightarrow> isdigit ch"
proof (induction k rule: str_nat.induct)
  case (1 k)
  then show ?case
    by (subst (asm) (2) str_nat.simps) (auto simp: isdigit_digit_char split: if_splits)
qed

lemma str_nat_not_Nil: "str_nat k \<noteq> []"
  by (subst str_nat.simps) simp

lemma isdigit_not_space: "isdigit ch \<Longrightarrow> \<not> isspace ch"
  by (auto simp: isdigit_def isspace_def)

lemma strip_id:
  assumes "s \<noteq> []" "\<not> isspace (hd s)" "\<not> isspace (last s)"
  shows "strip s = s"
proof -
  from assms have "dropWhile isspace s = s"
    by (cases s) simp_all
  moreover from assms have "dropWhile isspace (rev s) = rev s"
    by (cases "rev s") (simp_all add: hd_rev)
  ultimately show ?thesis
    by (simp add: strip_def)
qed

lemma strip_str_nat: "strip (str_nat k) = str_nat k"
proof (rule strip_id)
  show "str_nat k \<noteq> []"
    by (rule str_nat_not_Nil)
  show "\<not> isspace (hd (str_nat k))"
    using str_nat_not_Nil [of k] hd_in_set [of "str_nat k"] str_nat_digits isdigit_not_space
    by blast
  show "\<not> isspace (last (str_nat k))"
    using str_nat_not_Nil [of k] last_in_set [of "str_nat k"] str_nat_digits isdigit_not_space
    by blast
qed

lemma isdigit_not_sign: "isdigit ch \<Longrightarrow> ch \<noteq> CHR ''-'' \<and> ch \<noteq> CHR ''+''"
  by (auto simp: isdigit_def)

lemma py_int_str_nat: "py_int (str_nat k) = Some (int k)"
proof -
  obtain ch cs where s: "str_nat k = ch # cs"
    using str_nat_not_Nil [of k] by (cases "str_nat k") auto
  then have "isdigit ch"
    using str_nat_digits [of ch k] by simp
  then have "ch \<noteq> CHR ''-''" "ch \<noteq> CHR ''+''"
    using isdigit_not_sign by auto
  moreover have "int_digits (ch # cs) False 0 = Some k"
    using int_digits_str_nat [of k] s by simp
  moreover have "strip (ch # cs) = ch # cs"
    using strip_str_nat [of k] s by simp
  ultimately show ?thesis
    unfolding py_int_def s by simp
qed

lemma py_int_str_int: "py_int (str_int k) = Some k"
proof (cases "k < 0")
  case False
  then show ?thesis
    by (simp add: str_int_def py_int_str_nat)
next
  case True
  let ?s = "CHR ''-'' # str_nat (nat (- k))"
  have "\<not> isspace (last (str_nat (nat (- k))))"
    using str_nat_not_Nil [of "nat (- k)"] last_in_set [of "str_nat (nat (- k))"]
      str_nat_digits isdigit_not_space
    by blast
  then have "\<not> isspace (last ?s)"
    by (simp add: str_nat_not_Nil)
  then have "strip ?s = ?s"
    by (intro strip_id) (simp_all add: isspace_def)
  with True show ?thesis
    by (simp add: str_int_def py_int_def int_digits_str_nat)
qed

lemma ord_upper_column:
  assumes "0 \<le> col" "col < 15"
  shows "ord_upper (char_of (col + 65)) = Some (col + 65)"
proof -
  have "(of_char (char_of (col + 65)) :: int) = col + 65"
    using assms by (simp add: of_char_of)
  then show ?thesis
    using assms by (simp add: ord_upper_def Let_def)
qed

lemma parse_coord_str_coord: "parse_coord (str_coord (Some c)) = Inr (Some c)"
proof -
  define row where "row = (c - (W + 1)) div W"
  define col where "col = (c - (W + 1)) mod W"
  have col: "0 \<le> col" "col < 15"
    by (simp_all add: col_def W_def N_def)
  have c: "c = W + 1 + row * W + col"
    by (simp add: row_def col_def)
  have s: "str_coord (Some c) = char_of (col + 65) # str_int (N - row)"
    by (simp add: str_coord_def row_def col_def Let_def)
  have "isdigit ch \<or> ch = CHR ''-''" if "ch \<in> set (str_int (N - row))" for ch
    using that str_nat_digits by (auto simp: str_int_def split: if_splits)
  moreover have "\<not> (isdigit CHR ''a'' \<or> CHR ''a'' = CHR ''-'')"
    by (simp add: isdigit_def)
  ultimately have "CHR ''a'' \<notin> set (str_int (N - row))"
    by blast
  then have "str_int (N - row) \<noteq> ''ass''"
    by auto
  then have np: "str_coord (Some c) \<noteq> ''pass''"
    by (simp add: s)
  show ?thesis
    using np col
    by (simp add: parse_coord_def s py_slice_from_def py_index_def py_int_str_int
        ord_upper_column c [symmetric])
qed

text \<open>
  What does hold of the pair: the column letter is \<open>chr(col + ord('A'))\<close>, so the letters
  of the board's columns are the consecutive \<open>A..M\<close>; \<open>parse_coord\<close> inverts \<open>str_coord\<close>
  on every coordinate, \<open>parse_coord('pass')\<close> is none and \<open>str_coord(None)\<close> is \<open>'pass'\<close>.
\<close>

lemma coord_roundtrip_consecutive_letters:
  "parse_coord (str_coord (Some c)) = Inr (Some c)
   \<and> (on_board c \<longrightarrow> hd (str_coord (Some c)) = ''ABCDEFGHIJKLM'' ! nat ((c - (W + 1)) mod W))
   \<and> parse_coord ''pass'' = Inr None
   \<and> str_coord None = ''pass''"
proof -
  define col where "col = (c - (W + 1)) mod W"
  have letter: "char_of (col + 65) = ''ABCDEFGHIJKLM'' ! nat col" if "0 \<le> col" "col < 13"
  proof -
    from that have "col = 0 \<or> col = 1 \<or> col = 2 \<or> col = 3 \<or> col = 4 \<or> col = 5 \<or> col = 6
        \<or> col = 7 \<or> col = 8 \<or> col = 9 \<or> col = 10 \<or> col = 11 \<or> col = 12"
      by arith
    then show ?thesis
      by (elim disjE) (simp_all add: char_of_def)
  qed
  have "hd (str_coord (Some c)) = ''ABCDEFGHIJKLM'' ! nat col" if "on_board c"
  proof -
    from that have "0 \<le> col" "col < 13"
      by (simp_all add: on_board_def col_def Let_def W_def N_def)
    then show ?thesis
      using letter by (simp add: str_coord_def Let_def col_def)
  qed
  moreover have "parse_coord ''pass'' = Inr None"
    by (simp add: parse_coord_def)
  moreover have "str_coord None = ''pass''"
    by (simp add: str_coord_def)
  ultimately show ?thesis
    by (simp add: parse_coord_str_coord col_def)
qed

text \<open>
  C5. The claim has the column letters skip \<open>I\<close>, as Go coordinates and the GTP protocol
  that \<open>parse_coord\<close> and \<open>str_coord\<close> serve do: the 9th column is \<open>J\<close> and the 13th is
  \<open>N\<close>. The code does not skip: it writes the 9th column of the top row, coordinate 24, as
  \<open>I13\<close>; it reads \<open>J13\<close> as coordinate 25, the 10th column; and it reads \<open>N13\<close>, the
  last column of the top row, as coordinate 29, the border cell that ends the row.
\<close>

theorem coord_letters_do_not_skip_I:
  "on_board 24 \<and> str_coord (Some 24) = ''I13''
   \<and> parse_coord ''J13'' = Inr (Some 25)
   \<and> parse_coord ''N13'' = Inr (Some 29) \<and> \<not> on_board 29
   \<and> py_index empty 29 = Some (CHR 0x0A)"
  by code_simp

section \<open>What flood-fill, capture and placement leave on the board\<close>

lemma py_setitem_set:
  "py_setitem xs i y = Some ys \<Longrightarrow> set ys \<subseteq> insert y (set xs) \<and> length ys = length xs"
  by (auto simp: py_setitem_def Let_def split: if_splits dest: set_update_subset_insert [THEN subsetD])

lemma flood_visit_set:
  "flood_visit p bb ds fr = Inr (bb', fr') \<Longrightarrow>
   set bb' \<subseteq> insert CHR ''#'' (set bb) \<and> length bb' = length bb"
proof (induction ds arbitrary: bb fr)
  case Nil
  then show ?case by auto
next
  case (Cons d ds)
  show ?case
  proof (cases "py_index bb d")
    case None
    with Cons.prems show ?thesis by simp
  next
    case (Some q)
    show ?thesis
    proof (cases "q = p")
      case False
      with Some Cons.prems have "flood_visit p bb ds fr = Inr (bb', fr')"
        by simp
      then show ?thesis
        by (rule Cons.IH)
    next
      case True
      with Some Cons.prems obtain cs where cs: "py_setitem bb d CHR ''#'' = Some cs"
        and rest: "flood_visit p cs ds (d # fr) = Inr (bb', fr')"
        by (auto split: option.splits)
      from Cons.IH [OF rest] py_setitem_set [OF cs] show ?thesis
        by auto
    qed
  qed
qed

lemma flood_hash_set:
  "flood_hash k bb fr = Inr r \<Longrightarrow>
   set r \<subseteq> insert CHR ''#'' (set bb) \<and> length r = length bb"
proof (induction k arbitrary: bb fr)
  case 0
  then show ?case by simp
next
  case (Suc k)
  show ?case
  proof (cases fr)
    case Nil
    with Suc.prems show ?thesis by auto
  next
    case (Cons c fringe)
    with Suc.prems obtain bb' fringe' where
      visit: "flood_visit CHR ''#'' bb (neighbors c) fringe = Inr (bb', fringe')"
      and rest: "flood_hash k bb' fringe' = Inr r"
      by (auto split: sum.splits)
    from Suc.IH [OF rest] flood_visit_set [OF visit] show ?thesis
      by auto
  qed
qed

lemma floodfill_loop_set:
  "floodfill_loop p bb fr = Inr r \<Longrightarrow>
   set r \<subseteq> insert CHR ''#'' (set bb) \<and> length r = length bb"
proof (induction p bb fr rule: floodfill_loop.induct)
  case (1 p bb)
  then show ?case by auto
next
  case (2 p bb c fringe)
  from "2.prems" obtain bb' fringe' where
    visit: "flood_visit p bb (neighbors c) fringe = Inr (bb', fringe')"
    by (auto split: sum.splits)
  show ?case
  proof (cases "p = CHR ''#'' \<and> length fringe < length fringe'")
    case True
    with "2.prems" visit have "flood_hash (2 * length bb') bb' fringe' = Inr r"
      by simp
    from flood_hash_set [OF this] flood_visit_set [OF visit] show ?thesis
      by auto
  next
    case go: False
    with "2.prems" visit have rest: "floodfill_loop p bb' fringe' = Inr r"
      by simp
    from "2.IH" [OF visit refl go rest] flood_visit_set [OF visit] show ?thesis
      by auto
  qed
qed

lemma Board_nonempty: "s \<noteq> [] \<Longrightarrow> Board s = s"
  by (simp add: Board_def)

lemma floodfill_set:
  assumes "floodfill b c = Inr fb"
  shows "set fb \<subseteq> insert CHR ''#'' (set b) \<and> length fb = length b"
proof -
  from assms obtain p bb r where p: "py_index b c = Some p"
    and bb: "py_setitem b c CHR ''#'' = Some bb"
    and r: "floodfill_loop p bb [c] = Inr r" and fb: "fb = Board r"
    by (auto simp: floodfill_def split: option.splits sum.splits)
  from p have "b \<noteq> []"
    by (auto simp: py_index_def Let_def split: if_splits)
  with floodfill_loop_set [OF r] py_setitem_set [OF bb] have "r \<noteq> []"
    by auto
  with fb floodfill_loop_set [OF r] py_setitem_set [OF bb] show ?thesis
    by (auto simp: Board_nonempty)
qed

lemma py_replace_set: "set (py_replace s a b) \<subseteq> insert b (set s - {a})"
  by (auto simp: py_replace_def)

lemma py_replace_length: "length (py_replace s a b) = length s"
  by (simp add: py_replace_def)

lemma capture_loop_set:
  "capture_loop b ds k sc = Inr (b', k', sc') \<Longrightarrow>
   set b' \<subseteq> insert CHR ''.'' (set b) \<and> length b' = length b"
proof (induction ds arbitrary: b k sc)
  case Nil
  then show ?case by auto
next
  case (Cons d ds)
  from Cons.prems obtain q where q: "py_index b d = Some q"
    by (auto split: option.splits)
  show ?case
  proof (cases "q = CHR ''x''")
    case False
    with q Cons.prems have "capture_loop b ds k sc = Inr (b', k', sc')"
      by simp
    then show ?thesis
      by (rule Cons.IH)
  next
    case True
    with q Cons.prems obtain fb lo where fb: "floodfill b d = Inr fb"
      and lo: "contact fb CHR ''.'' = Inr lo"
      by (auto split: sum.splits)
    show ?thesis
    proof (cases lo)
      case (Some l)
      with True q fb lo Cons.prems have "capture_loop b ds k sc = Inr (b', k', sc')"
        by simp
      then show ?thesis
        by (rule Cons.IH)
    next
      case None
      with True q fb lo Cons.prems obtain k2 sc2 where
        rest: "capture_loop (py_replace fb CHR ''#'' CHR ''.'') ds k2 sc2 = Inr (b', k', sc')"
        by (auto simp: Let_def)
      from Cons.IH [OF rest] floodfill_set [OF fb]
        py_replace_set [of fb "CHR ''#''" "CHR ''.''"]
      show ?thesis
        by (auto simp: py_replace_length)
    qed
  qed
qed

lemma board_put_set:
  "board_put b (Some c) p = Some b' \<Longrightarrow> set b' \<subseteq> insert p (set b) \<and> b' \<noteq> []"
  by (auto simp: board_put_def Board_nonempty py_slice_to_def py_slice_from_def
      dest: in_set_takeD in_set_dropD split: if_splits)

lemma swapcase_char_space: "isspace ch \<Longrightarrow> swapcase_char ch = ch"
  by (auto simp: swapcase_char_def isspace_def Let_def)

lemma swapcase_char_stones:
  "swapcase_char CHR ''X'' = CHR ''x''" "swapcase_char CHR ''x'' = CHR ''X''"
  "swapcase_char CHR ''.'' = CHR ''.''"
  by code_simp+

lemma cell_ok_swapcase_char: "cell_ok ch \<Longrightarrow> cell_ok (swapcase_char ch)"
  unfolding cell_ok_def
  by (elim disjE) (simp_all add: swapcase_char_stones swapcase_char_space)

lemma list_all_cell_ok_empty: "list_all cell_ok empty"
  by code_simp

lemma cell_ok_empty: "ch \<in> set empty \<Longrightarrow> cell_ok ch"
  using list_all_cell_ok_empty by (simp add: list_all_iff)

lemma swapcase_cells_ok:
  assumes "\<forall>ch \<in> set b. cell_ok ch"
  shows "\<forall>ch \<in> set (swapcase b). cell_ok ch"
proof (cases "map swapcase_char b = []")
  case True
  then show ?thesis
    by (auto simp: swapcase_def Board_def cell_ok_empty)
next
  case False
  with assms show ?thesis
    by (auto simp: swapcase_def Board_def cell_ok_swapcase_char)
qed

lemma move_cells_ok:
  assumes ok: "\<forall>ch \<in> set (board p). cell_ok ch" and mv: "move p c = Inr (Some p')"
  shows "\<forall>ch \<in> set (board p'). cell_ok ch"
proof -
  from mv obtain b b' k sc where b: "board_put (board p) (Some c) CHR ''X'' = Some b"
    and cap: "capture_loop b (neighbors c) (fst (captures p)) [] = Inr (b', k, sc)"
    and p': "board p' = swapcase b'"
    by (auto simp: move_def Let_def split: if_splits sum.splits option.splits)
  from board_put_set [OF b] ok have "\<forall>ch \<in> set b. cell_ok ch"
    by (auto simp: cell_ok_def)
  with capture_loop_set [OF cap] have "\<forall>ch \<in> set b'. cell_ok ch"
    by (auto simp: cell_ok_def)
  with p' show ?thesis
    by (simp add: swapcase_cells_ok)
qed

lemma reachable_cells_ok: "reachable p \<Longrightarrow> \<forall>ch \<in> set (board p). cell_ok ch"
proof (induction rule: reachable.induct)
  case start
  then show ?case
    by (auto simp: empty_position_def Board_def cell_ok_empty)
next
  case (by_move p c p')
  then show ?case
    by (blast intro: move_cells_ok [rule_format])
next
  case (by_pass p)
  then show ?case
    by (simp add: pass_move_def swapcase_cells_ok)
qed

lemma markers_not_ok:
  "\<not> cell_ok CHR ''#''" "\<not> cell_ok CHR ''L''" "\<not> cell_ok CHR ''%''" "\<not> cell_ok CHR '':''"
  by (simp_all add: cell_ok_def isspace_def)

section \<open>The cells of a reachable board\<close>

text \<open>
  C7. For every Position reachable from \<open>empty_position\<close> by any sequence of \<open>move\<close> and
  \<open>pass_move\<close> calls, the board string contains only \<open>.\<close>, \<open>X\<close>, \<open>x\<close> and whitespace; the
  transient markers \<open>#\<close>, \<open>L\<close>, \<open>%\<close> and \<open>:\<close> never appear in it.
\<close>

theorem reachable_board_cells:
  "reachable p \<Longrightarrow>
   (\<forall>ch \<in> set (board p). ch = CHR ''.'' \<or> ch = CHR ''X'' \<or> ch = CHR ''x'' \<or> isspace ch)
   \<and> CHR ''#'' \<notin> set (board p) \<and> CHR ''L'' \<notin> set (board p)
   \<and> CHR ''%'' \<notin> set (board p) \<and> CHR '':'' \<notin> set (board p)"
proof -
  assume "reachable p"
  then have ok: "\<forall>ch \<in> set (board p). cell_ok ch"
    by (rule reachable_cells_ok)
  then have "\<forall>ch \<in> set (board p). ch = CHR ''.'' \<or> ch = CHR ''X'' \<or> ch = CHR ''x'' \<or> isspace ch"
    unfolding cell_ok_def .
  moreover have "CHR ''#'' \<notin> set (board p)"
    using ok markers_not_ok(1) by blast
  moreover have "CHR ''L'' \<notin> set (board p)"
    using ok markers_not_ok(2) by blast
  moreover have "CHR ''%'' \<notin> set (board p)"
    using ok markers_not_ok(3) by blast
  moreover have "CHR '':'' \<notin> set (board p)"
    using ok markers_not_ok(4) by blast
  ultimately show ?thesis
    by blast
qed

lemma move_empty_position_112: "move empty_position 112 = Inr (Some first_move)"
  by code_simp

theorem reachable_board_cells_witness:
  "reachable (pass_move first_move)
   \<and> list_all (\<lambda>ch. ch = CHR ''.'' \<or> ch = CHR ''X'' \<or> ch = CHR ''x'' \<or> isspace ch)
         (board (pass_move first_move))
   \<and> CHR ''#'' \<notin> set (board (pass_move first_move))
   \<and> CHR ''L'' \<notin> set (board (pass_move first_move))
   \<and> CHR ''%'' \<notin> set (board (pass_move first_move))
   \<and> CHR '':'' \<notin> set (board (pass_move first_move))"
proof -
  have "reachable first_move"
    using reachable.start move_empty_position_112 by (rule reachable.by_move)
  then have r: "reachable (pass_move first_move)"
    by (rule reachable.by_pass)
  from reachable_board_cells [OF r] r show ?thesis
    unfolding list_all_iff by blast
qed

section \<open>The ko test of move\<close>

text \<open>
  C1 on the code. In \<open>ko_before\<close> Black captures the single stone 111 by playing 112,
  inside a white eye shape; \<open>move\<close> stores the ko coordinate 111. The immediate recapture
  at the stored ko, 111, is not rejected: the first test of \<open>move\<close> compares the
  coordinate with \<open>komi\<close>, not with \<open>ko\<close>.
\<close>

theorem ko_recapture_accepted:
  "move ko_before 112 = Inr (Some ko_after)
   \<and> ko ko_after = Some 111
   \<and> move ko_after 111 = Inr (Some ko_retaken)"
proof -
  have "move ko_before 112 = Inr (Some ko_after)"
    by code_simp
  moreover have "ko ko_after = Some 111"
    by (simp add: ko_after_def)
  moreover have "move ko_after 111 = Inr (Some ko_retaken)"
    by code_simp
  ultimately show ?thesis
    by simp
qed

section \<open>Scoring\<close>

text \<open>
  C2 on the code. \<open>final_position\<close> has four empty regions: the eyes 16 and 18 touch only
  \<open>X\<close>, the eyes 26 and 28 only \<open>x\<close>. With every region labelled the count is
  91 - 78 and the score 5.5; \<open>score\<close> labels only the region of the last empty point on
  an otherwise unlabelled board, counts 89 - 77 and returns 4.5.
\<close>

theorem score_labels_last_region_only:
  "score final_position None = Inr (4.5, None)
   \<and> score_all_regions final_position = Inr 5.5"
proof -
  have "score final_position None = Inr (4.5, None)"
    by code_simp
  moreover have "score_all_regions final_position = Inr 5.5"
    by code_simp
  ultimately show ?thesis
    by simp
qed

section \<open>Flood-fill on a framed board\<close>

lemma W_val: "W = 15"
  by (simp add: W_def N_def)

lemma W2_val: "W2 = 225"
  by (simp add: W2_def W_def N_def)

lemma on_board_interior: "on_board c \<Longrightarrow> interior c"
  unfolding on_board_def interior_def W2_val W_val N_def Let_def
  by presburger

lemma py_index_nat: "0 \<le> i \<Longrightarrow> i < int (length xs) \<Longrightarrow> py_index xs i = Some (xs ! nat i)"
  by (simp add: py_index_def)

lemma py_setitem_nat:
  "0 \<le> i \<Longrightarrow> i < int (length xs) \<Longrightarrow> py_setitem xs i y = Some (xs[nat i := y])"
  by (simp add: py_setitem_def)

lemma py_set_at:
  assumes "py_index xs d = Some q" "py_setitem xs d y = Some ys"
  shows "\<exists>k < length xs. xs ! k = q \<and> ys = xs[k := y]"
proof (cases "0 \<le> d")
  case True
  with assms show ?thesis
    by (auto simp: py_index_def py_setitem_def Let_def split: if_splits intro!: exI [of _ "nat d"])
next
  case False
  with assms show ?thesis
    by (auto simp: py_index_def py_setitem_def Let_def split: if_splits
        intro!: exI [of _ "nat (int (length xs) + d)"])
qed

lemma flood_visit_cells:
  "flood_visit p bb ds fr = Inr (bb', fr') \<Longrightarrow> i < length bb \<Longrightarrow>
   bb' ! i = bb ! i \<or> (bb' ! i = CHR ''#'' \<and> bb ! i = p)"
proof (induction ds arbitrary: bb fr)
  case Nil
  then show ?case by auto
next
  case (Cons d ds)
  from Cons.prems obtain q where q: "py_index bb d = Some q"
    by (auto split: option.splits)
  show ?case
  proof (cases "q = p")
    case False
    with q Cons.prems have "flood_visit p bb ds fr = Inr (bb', fr')"
      by simp
    from Cons.IH [OF this Cons.prems(2)] show ?thesis .
  next
    case True
    with q Cons.prems obtain cs where cs: "py_setitem bb d CHR ''#'' = Some cs"
      and rest: "flood_visit p cs ds (d # fr) = Inr (bb', fr')"
      by (auto split: option.splits)
    from py_set_at [OF q cs] True obtain k where k: "k < length bb" "bb ! k = p"
      "cs = bb[k := CHR ''#'']"
      by auto
    then have "i < length cs"
      using Cons.prems(2) by simp
    from Cons.IH [OF rest this] k Cons.prems(2) show ?thesis
      by (cases "i = k") auto
  qed
qed

lemma flood_hash_cells:
  "flood_hash k bb fr = Inr r \<Longrightarrow> i < length bb \<Longrightarrow>
   r ! i = bb ! i \<or> (r ! i = CHR ''#'' \<and> bb ! i = CHR ''#'')"
proof (induction k arbitrary: bb fr)
  case 0
  then show ?case by simp
next
  case (Suc k)
  show ?case
  proof (cases fr)
    case Nil
    with Suc.prems show ?thesis by auto
  next
    case (Cons c fringe)
    with Suc.prems obtain bb' fringe' where
      visit: "flood_visit CHR ''#'' bb (neighbors c) fringe = Inr (bb', fringe')"
      and rest: "flood_hash k bb' fringe' = Inr r"
      by (auto split: sum.splits)
    from flood_visit_set [OF visit] Suc.prems(2) have i: "i < length bb'"
      by simp
    from Suc.IH [OF rest i] flood_visit_cells [OF visit Suc.prems(2)] show ?thesis
      by auto
  qed
qed

lemma floodfill_loop_cells:
  "floodfill_loop p bb fr = Inr r \<Longrightarrow> i < length bb \<Longrightarrow>
   r ! i = bb ! i \<or> (r ! i = CHR ''#'' \<and> bb ! i = p)"
proof (induction p bb fr rule: floodfill_loop.induct)
  case (1 p bb)
  then show ?case by auto
next
  case (2 p bb c fringe)
  from "2.prems" obtain bb' fringe' where
    visit: "flood_visit p bb (neighbors c) fringe = Inr (bb', fringe')"
    by (auto split: sum.splits)
  from flood_visit_set [OF visit] "2.prems"(2) have i: "i < length bb'"
    by simp
  show ?case
  proof (cases "p = CHR ''#'' \<and> length fringe < length fringe'")
    case True
    with "2.prems" visit have "flood_hash (2 * length bb') bb' fringe' = Inr r"
      by simp
    from flood_hash_cells [OF this i] flood_visit_cells [OF visit "2.prems"(2)] True
    show ?thesis
      by auto
  next
    case go: False
    with "2.prems" visit have rest: "floodfill_loop p bb' fringe' = Inr r"
      by simp
    from "2.IH" [OF visit refl go rest i] flood_visit_cells [OF visit "2.prems"(2)]
    show ?thesis
      by auto
  qed
qed

lemma floodfill_cells:
  assumes ff: "floodfill b c = Inr fb" and p: "py_index b c = Some p" and i: "i < length b"
  shows "fb ! i = b ! i \<or> (fb ! i = CHR ''#'' \<and> b ! i = p)"
proof -
  from ff p obtain bb r where bb: "py_setitem b c CHR ''#'' = Some bb"
    and r: "floodfill_loop p bb [c] = Inr r" and fb: "fb = Board r"
    by (auto simp: floodfill_def split: option.splits sum.splits)
  from py_set_at [OF p bb] obtain k where k: "k < length b" "b ! k = p" "bb = b[k := CHR ''#'']"
    by auto
  from k i have "r \<noteq> []"
    using floodfill_loop_set [OF r] by auto
  then have fb': "fb = r"
    using fb by (simp add: Board_nonempty)
  from k i have "i < length bb"
    by simp
  from floodfill_loop_cells [OF r this] k i fb' show ?thesis
    by (cases "i = k") auto
qed

lemma floodfill_start:
  assumes ff: "floodfill b c = Inr fb" and c: "0 \<le> c" "c < int (length b)"
  shows "fb ! nat c = CHR ''#''"
proof -
  from c have p: "py_index b c = Some (b ! nat c)"
    by (rule py_index_nat)
  with ff c obtain r where r: "floodfill_loop (b ! nat c) (b[nat c := CHR ''#'']) [c] = Inr r"
    and fb: "fb = Board r"
    by (auto simp: floodfill_def py_setitem_nat split: sum.splits)
  from c have "r \<noteq> []"
    using floodfill_loop_set [OF r] by auto
  then have fb': "fb = r"
    using fb by (simp add: Board_nonempty)
  from c have "nat c < length (b[nat c := CHR ''#''])"
    by simp
  from floodfill_loop_cells [OF r this] c fb' show ?thesis
    by auto
qed

lemma flood_visit_safe:
  assumes "int (length bb) = W2"
    and "\<forall>d \<in> set ds. 0 \<le> d \<and> d < W2"
    and "\<forall>i < length bb. bb ! i = p \<longrightarrow> interior (int i)"
    and "\<forall>c \<in> set fr. interior c"
  shows "\<exists>bb' fr'. flood_visit p bb ds fr = Inr (bb', fr') \<and> (\<forall>c \<in> set fr'. interior c)"
  using assms
proof (induction ds arbitrary: bb fr)
  case Nil
  then show ?case by simp
next
  case (Cons d ds)
  from Cons.prems have d: "0 \<le> d" "d < int (length bb)"
    by simp_all
  then have q: "py_index bb d = Some (bb ! nat d)"
    by (rule py_index_nat)
  show ?case
  proof (cases "bb ! nat d = p")
    case False
    have "\<exists>bb' fr'. flood_visit p bb ds fr = Inr (bb', fr') \<and> (\<forall>c \<in> set fr'. interior c)"
      using Cons.prems by (intro Cons.IH) simp_all
    with q False show ?thesis
      by simp
  next
    case True
    let ?cs = "bb[nat d := CHR ''#'']"
    from d have cs: "py_setitem bb d CHR ''#'' = Some ?cs"
      by (rule py_setitem_nat)
    from True d Cons.prems(3) have "interior d"
      by (metis int_nat_eq nat_less_iff)
    moreover have "\<forall>i < length ?cs. ?cs ! i = p \<longrightarrow> interior (int i)"
    proof (intro allI impI)
      fix i
      assume "i < length ?cs" "?cs ! i = p"
      then show "interior (int i)"
        using Cons.prems(3) True d by (cases "i = nat d") auto
    qed
    ultimately have
      "\<exists>bb' fr'. flood_visit p ?cs ds (d # fr) = Inr (bb', fr') \<and> (\<forall>c \<in> set fr'. interior c)"
      using Cons.prems by (intro Cons.IH) simp_all
    with q True cs show ?thesis
      by simp
  qed
qed

lemma interior_neighbors: "interior c \<Longrightarrow> \<forall>d \<in> set (neighbors c). 0 \<le> d \<and> d < W2"
  by (simp add: interior_def neighbors_def W_val W2_val)

lemma floodfill_loop_safe:
  "int (length bb) = W2 \<Longrightarrow> p \<noteq> CHR ''#'' \<Longrightarrow>
   \<forall>i < length bb. bb ! i = p \<longrightarrow> interior (int i) \<Longrightarrow>
   \<forall>c \<in> set fr. interior c \<Longrightarrow>
   \<exists>r. floodfill_loop p bb fr = Inr r"
proof (induction p bb fr rule: floodfill_loop.induct)
  case (1 p bb)
  then show ?case by simp
next
  case (2 p bb c fringe)
  from "2.prems" have "interior c" "\<forall>c \<in> set fringe. interior c"
    by simp_all
  with flood_visit_safe [OF "2.prems"(1) interior_neighbors "2.prems"(3), of c fringe]
  obtain bb' fringe' where
    visit: "flood_visit p bb (neighbors c) fringe = Inr (bb', fringe')"
    and fr: "\<forall>c \<in> set fringe'. interior c"
    by blast
  from flood_visit_set [OF visit] "2.prems"(1) have len: "int (length bb') = W2"
    by simp
  have cells: "\<forall>i < length bb'. bb' ! i = p \<longrightarrow> interior (int i)"
  proof (intro allI impI)
    fix i
    assume i: "i < length bb'" "bb' ! i = p"
    with flood_visit_set [OF visit] have "i < length bb"
      by simp
    from flood_visit_cells [OF visit this] i "2.prems"(2,3) \<open>i < length bb\<close>
    show "interior (int i)"
      by auto
  qed
  from "2.prems"(2) have go: "\<not> (p = CHR ''#'' \<and> length fringe < length fringe')"
    by simp
  from "2.IH" [OF visit refl go len "2.prems"(2) cells fr] obtain r where
    "floodfill_loop p bb' fringe' = Inr r" ..
  with visit "2.prems"(2) show ?case
    by simp
qed

lemma floodfill_safe:
  assumes len: "int (length b) = W2" and c: "interior c" and p: "b ! nat c \<noteq> CHR ''#''"
    and cells: "\<forall>i < length b. b ! i = b ! nat c \<longrightarrow> interior (int i)"
  shows "\<exists>fb. floodfill b c = Inr fb"
proof -
  from c len have c': "0 \<le> c" "c < int (length b)"
    by (simp_all add: interior_def W_val W2_val)
  let ?bb = "b[nat c := CHR ''#'']"
  have "\<forall>i < length ?bb. ?bb ! i = b ! nat c \<longrightarrow> interior (int i)"
  proof (intro allI impI)
    fix i
    assume "i < length ?bb" "?bb ! i = b ! nat c"
    with cells p show "interior (int i)"
      by (cases "i = nat c") auto
  qed
  with floodfill_loop_safe [of ?bb "b ! nat c" "[c]"] len p c
  obtain r where "floodfill_loop (b ! nat c) ?bb [c] = Inr r"
    by auto
  with c' show ?thesis
    by (simp add: floodfill_def py_index_nat py_setitem_nat)
qed

lemma frame_ok_cells:
  "frame_ok b \<Longrightarrow> i < length b \<Longrightarrow> \<not> isspace (b ! i) \<Longrightarrow> on_board (int i)"
  by (auto simp: frame_ok_def list_all_iff)

lemma frame_ok_length: "frame_ok b \<Longrightarrow> int (length b) = W2"
  by (simp add: frame_ok_def)

lemma stones_not_space:
  "\<not> isspace CHR ''.''" "\<not> isspace CHR ''X''" "\<not> isspace CHR ''x''"
  by (simp_all add: isspace_def)

text \<open>On a framed board, flood-filling from a point or a stone returns a board.\<close>

lemma floodfill_frame_ok:
  assumes fr: "frame_ok b" and c: "interior c"
    and p: "b ! nat c = CHR ''.'' \<or> b ! nat c = CHR ''X'' \<or> b ! nat c = CHR ''x''"
    and others: "\<forall>i < length b. i \<noteq> nat c \<longrightarrow> b ! i = b ! nat c \<longrightarrow> on_board (int i)"
  shows "\<exists>fb. floodfill b c = Inr fb"
proof (rule floodfill_safe)
  show "int (length b) = W2"
    using fr by (rule frame_ok_length)
  show "interior c"
    by (rule c)
  show "b ! nat c \<noteq> CHR ''#''"
    using p by auto
  show "\<forall>i < length b. b ! i = b ! nat c \<longrightarrow> interior (int i)"
  proof (intro allI impI)
    fix i
    assume i: "i < length b" "b ! i = b ! nat c"
    show "interior (int i)"
    proof (cases "i = nat c")
      case True
      with c show ?thesis
        by (simp add: interior_def W_val)
    next
      case False
      with others i show ?thesis
        by (simp add: on_board_interior)
    qed
  qed
qed

section \<open>The score of a board without stones\<close>

lemma find_char_found:
  "find_char xs ch k = j \<Longrightarrow> j \<noteq> - 1 \<Longrightarrow>
   int k \<le> j \<and> nat j - k < length xs \<and> xs ! (nat j - k) = ch"
proof (induction xs arbitrary: k)
  case Nil
  then show ?case by simp
next
  case (Cons a xs)
  show ?case
  proof (cases "a = ch")
    case True
    with Cons.prems show ?thesis by auto
  next
    case False
    with Cons.prems have "find_char xs ch (Suc k) = j"
      by simp
    from Cons.IH [OF this Cons.prems(2)] show ?thesis
      by (auto simp: Suc_diff_le nat_le_iff)
  qed
qed

lemma py_find_found:
  assumes "py_find s ch st = j" "j \<noteq> - 1"
  shows "0 \<le> j \<and> j < int (length s) \<and> s ! nat j = ch"
proof -
  define k where "k = (if 0 \<le> st then nat st else nat (int (length s) + st))"
  from assms have "find_char (drop k s) ch k = j"
    by (simp add: py_find_def k_def Let_def)
  from find_char_found [OF this assms(2)]
  have "int k \<le> j" "nat j - k < length s - k" "drop k s ! (nat j - k) = ch"
    by simp_all
  then show ?thesis
    by (auto simp: nat_le_iff)
qed

lemma nth_opt_mem: "nth_opt xs k = Some y \<Longrightarrow> y \<in> set xs"
  by (auto simp: nth_opt_def split: if_splits)

lemma contact_scan_mem: "contact_scan b p s = Some r \<Longrightarrow> p \<in> set b"
proof (induction b arbitrary: s)
  case Nil
  then show ?case by simp
next
  case (Cons a rest)
  then show ?case
    by (auto split: if_splits dest: nth_opt_mem)
qed

lemma contact_absent:
  "p \<notin> set b \<Longrightarrow> p = CHR ''.'' \<or> p = CHR ''x'' \<or> p = CHR ''X'' \<Longrightarrow> contact b p = Inr None"
  using contact_scan_mem [of b p 0] by (cases "contact_scan b p 0") (auto simp: contact_def)

lemma score_loop_no_stones:
  "frame_ok sb \<Longrightarrow> CHR ''X'' \<notin> set sb \<Longrightarrow> CHR ''x'' \<notin> set sb \<Longrightarrow>
   (bo = None \<longrightarrow> py_find sb CHR ''.'' (i + 1) \<noteq> - 1) \<Longrightarrow>
   (\<forall>b. bo = Some b \<longrightarrow> CHR ''X'' \<notin> set b \<and> CHR ''x'' \<notin> set b) \<Longrightarrow>
   \<exists>b. score_loop sb i bo = Inr (Some b) \<and> CHR ''X'' \<notin> set b \<and> CHR ''x'' \<notin> set b"
proof (induction sb i bo rule: score_loop.induct)
  case (1 sb i bo)
  note fr = "1.prems"(1) and noX = "1.prems"(2) and nox = "1.prems"(3)
  define j where "j = py_find sb CHR ''.'' (i + 1)"
  show ?case
  proof (cases "j = - 1")
    case True
    with "1.prems" obtain b where "bo = Some b" "CHR ''X'' \<notin> set b \<and> CHR ''x'' \<notin> set b"
      by (cases bo) (auto simp: j_def)
    with True show ?thesis
      by (subst score_loop.simps) (simp add: j_def [symmetric])
  next
    case False
    from py_find_found [OF j_def [symmetric] False]
    have j: "0 \<le> j" "j < int (length sb)" "sb ! nat j = CHR ''.''"
      by simp_all
    then have nj: "nat j < length sb"
      by simp
    have onb: "on_board (int i)" if "i < length sb" "sb ! i = CHR ''.''" for i
      using frame_ok_cells [OF fr that(1)] that(2) stones_not_space by simp
    from onb [OF nj j(3)] j(1) have "interior j"
      by (simp add: on_board_interior)
    with floodfill_frame_ok [OF fr, of j] j(3) onb obtain fb where
      ff: "floodfill sb j = Inr fb"
      by auto
    from floodfill_set [OF ff] noX nox
    have nofb: "CHR ''X'' \<notin> set fb" "CHR ''x'' \<notin> set fb"
      by auto
    then have cX: "contact fb CHR ''X'' = Inr None" and cx: "contact fb CHR ''x'' = Inr None"
      by (simp_all add: contact_absent)
    let ?b = "py_replace fb CHR ''#'' CHR '':''"
    from nofb py_replace_set [of fb "CHR ''#''" "CHR '':''"]
    have nob: "CHR ''X'' \<notin> set ?b \<and> CHR ''x'' \<notin> set ?b"
      by auto
    have "\<exists>b. score_loop sb j (Some ?b) = Inr (Some b) \<and> CHR ''X'' \<notin> set b \<and> CHR ''x'' \<notin> set b"
      using nob fr noX nox
      by (intro "1.IH"(3) [OF j_def False ff cX cx refl refl]) simp_all
    moreover have "score_loop sb i bo = score_loop sb j (Some ?b)"
      using False ff cX cx
      by (subst score_loop.simps) (simp add: j_def [symmetric])
    ultimately show ?thesis
      by simp
  qed
qed

lemma py_count_absent: "a \<notin> set s \<Longrightarrow> py_count s a = 0"
  by (simp add: py_count_def)

lemma frame_ok_empty: "frame_ok empty"
  by code_simp

lemma empty_no_stones: "CHR ''X'' \<notin> set empty \<and> CHR ''x'' \<notin> set empty"
  by code_simp

lemma empty_has_point: "py_find empty CHR ''.'' (0 + 1) = 16"
  by code_simp

lemma score_empty_board:
  assumes "board p = empty"
  shows "score p None = Inr (if n p mod 2 = 1 then komi p else - komi p, None)"
proof -
  from score_loop_no_stones [of empty None 0] frame_ok_empty empty_no_stones empty_has_point
  obtain b where "score_loop empty 0 None = Inr (Some b)"
    "CHR ''X'' \<notin> set b" "CHR ''x'' \<notin> set b"
    by auto
  with assms show ?thesis
    by (simp add: score_def py_count_absent)
qed

lemma swapcase_empty: "swapcase empty = empty"
  by code_simp

lemma board_after_passes:
  "board (pass_move empty_position) = empty"
  "board (pass_move (pass_move (pass_move empty_position))) = empty"
  by (simp_all add: pass_move_def empty_position_def swapcase_empty Board_def)

text \<open>
  C3 (as the code has it). \<open>score\<close> returns \<open>count('X') - count('x')\<close> over the board
  its loop leaves, plus komi on odd plies and minus komi on even plies:
  \<open>komi = self.komi if self.n % 2 == 1 else -self.komi\<close>. On the all-empty board with
  komi 7.5 it returns 7.5 for odd \<open>n\<close> and -7.5 for even \<open>n\<close>.
\<close>

theorem score_komi_sign:
  "(score p None = Inr (s, om) \<longrightarrow>
      (\<exists>b. score_loop (board p) 0 None = Inr (Some b)
         \<and> s = of_int (py_count b CHR ''X'' - py_count b CHR ''x'')
               + (if n p mod 2 = 1 then komi p else - komi p)))
   \<and> (board p = empty \<and> komi p = 7.5 \<longrightarrow>
        score p None = Inr (if n p mod 2 = 1 then 7.5 else - 7.5, None))"
proof (intro conjI impI)
  assume "score p None = Inr (s, om)"
  then show "\<exists>b. score_loop (board p) 0 None = Inr (Some b)
         \<and> s = of_int (py_count b CHR ''X'' - py_count b CHR ''x'')
               + (if n p mod 2 = 1 then komi p else - komi p)"
    by (auto simp: score_def Let_def split: sum.splits option.splits)
next
  assume "board p = empty \<and> komi p = 7.5"
  then show "score p None = Inr (if n p mod 2 = 1 then 7.5 else - 7.5, None)"
    using score_empty_board [of p] by simp
qed

theorem score_komi_sign_witness:
  "board (pass_move (pass_move (pass_move empty_position))) = empty
   \<and> komi (pass_move (pass_move (pass_move empty_position))) = 7.5
   \<and> score (pass_move (pass_move (pass_move empty_position))) None = Inr (7.5, None)
   \<and> (\<exists>b. score_loop (board (pass_move (pass_move (pass_move empty_position)))) 0 None
            = Inr (Some b)
          \<and> (7.5 :: real) = of_int (py_count b CHR ''X'' - py_count b CHR ''x'') + 7.5)"
proof -
  let ?p = "pass_move (pass_move (pass_move empty_position))"
  have b: "board ?p = empty" and k: "komi ?p = 7.5" and odd: "n ?p mod 2 = 1"
    by (simp_all add: board_after_passes) (simp_all add: pass_move_def empty_position_def)
  from score_komi_sign [of ?p "7.5" None] b k odd
  have s: "score ?p None = Inr (7.5, None)"
    by simp
  with score_komi_sign [of ?p "7.5" None] odd k
  have "\<exists>b. score_loop (board ?p) 0 None = Inr (Some b)
          \<and> (7.5 :: real) = of_int (py_count b CHR ''X'' - py_count b CHR ''x'') + 7.5"
    by simp
  with b k s show ?thesis
    by blast
qed

text \<open>
  C3 as stated fails: after one pass on the empty board the ply is odd, and the score is
  7.5, not -7.5.
\<close>

theorem score_empty_board_odd_ply:
  "n (pass_move empty_position) mod 2 = 1
   \<and> score (pass_move empty_position) None = Inr (7.5, None)"
  using score_empty_board [of "pass_move empty_position"]
  by (simp add: board_after_passes) (simp add: pass_move_def empty_position_def)

section \<open>Moves onto occupied and border cells\<close>

lemma contact_scan_head:
  assumes "(a = CHR ''#'' \<and> nth_opt rest 0 = Some p) \<or> (a = p \<and> nth_opt rest 0 = Some CHR ''#'')
    \<or> (a = CHR ''#'' \<and> nth_opt rest 14 = Some p) \<or> (a = p \<and> nth_opt rest 14 = Some CHR ''#'')"
  shows "contact_scan (a # rest) p s \<noteq> None"
  using assms by (auto simp: W_val)

lemma nth_opt_Cons: "k < length rest \<Longrightarrow> nth_opt rest k = Some ((a # rest) ! Suc k)"
  by (simp add: nth_opt_def)

lemma contact_scan_complete:
  "i < length b \<Longrightarrow> j < length b \<Longrightarrow> b ! i = CHR ''#'' \<Longrightarrow> b ! j = p \<Longrightarrow> p \<noteq> CHR ''#'' \<Longrightarrow>
   j = i + 1 \<or> i = j + 1 \<or> j = i + 15 \<or> i = j + 15 \<Longrightarrow>
   contact_scan b p s \<noteq> None"
proof (induction b arbitrary: i j s)
  case Nil
  then show ?case by simp
next
  case (Cons a rest)
  show ?case
  proof (cases i)
    case 0
    with Cons.prems have a: "a = CHR ''#''" and j: "j = 1 \<or> j = 15"
      by auto
    from j Cons.prems(2,4) have "nth_opt rest 0 = Some p \<or> nth_opt rest 14 = Some p"
      using nth_opt_Cons [of 0 rest a] nth_opt_Cons [of 14 rest a]
      by (auto simp: numeral_eq_Suc)
    with a show ?thesis
      by (intro contact_scan_head) blast
  next
    case (Suc i')
    note i = this
    show ?thesis
    proof (cases j)
      case 0
      with i Cons.prems have a: "a = p" and i': "i = 1 \<or> i = 15"
        by auto
      from i' Cons.prems(1,3)
      have "nth_opt rest 0 = Some CHR ''#'' \<or> nth_opt rest 14 = Some CHR ''#''"
        using nth_opt_Cons [of 0 rest a] nth_opt_Cons [of 14 rest a]
        by (auto simp: numeral_eq_Suc)
      with a show ?thesis
        by (intro contact_scan_head) blast
    next
      case (Suc j')
      with i Cons.prems have "contact_scan rest p (s + 1) \<noteq> None"
        by (intro Cons.IH [of i' j']) auto
      then show ?thesis
        by (simp del: contact_scan.simps add: contact_scan.simps(2) [of a rest p s])
    qed
  qed
qed

lemma eyeish_loop_ok:
  "\<forall>d \<in> set ds. 0 \<le> d \<and> d < int (length b) \<Longrightarrow> \<exists>r. eyeish_loop b ds e = Inr r"
proof (induction ds arbitrary: e)
  case Nil
  then show ?case by simp
next
  case (Cons d ds)
  then have q: "py_index b d = Some (b ! nat d)"
    by (simp add: py_index_nat)
  have ih: "\<exists>r. eyeish_loop b ds e' = Inr r" for e'
    using Cons by simp
  show ?case
    using q ih [of e] ih [of "Some (b ! nat d)"]
    by (cases e) auto
qed

lemma board_put_nat:
  assumes "0 \<le> c" "c < int (length b)"
  shows "board_put b (Some c) ch = Some (b[nat c := ch])"
proof -
  from assms have "nat c < length b"
    by simp
  then have "b[nat c := ch] = take (nat c) b @ ch # drop (Suc (nat c)) b"
    by (rule upd_conv_take_nth_drop)
  moreover from assms have "nat (c + 1) = Suc (nat c)"
    by simp
  ultimately show ?thesis
    using assms by (simp add: board_put_def py_slice_to_def py_slice_from_def Board_nonempty)
qed


lemma contact_literal:
  "\<exists>lo. contact b CHR ''.'' = Inr lo"
  by (simp add: contact_def)

lemma capture_loop_safe:
  "int (length b) = W2 \<Longrightarrow> \<forall>d \<in> set ds. 0 \<le> d \<and> d < W2 \<Longrightarrow>
   \<forall>i < length b. b ! i = CHR ''x'' \<longrightarrow> on_board (int i) \<Longrightarrow>
   \<exists>b' k' sc'. capture_loop b ds k sc = Inr (b', k', sc') \<and> length b' = length b
     \<and> (\<forall>i < length b. b' ! i = b ! i
           \<or> (b' ! i = CHR ''.'' \<and> (b ! i = CHR ''x'' \<or> b ! i = CHR ''#'')))"
proof (induction ds arbitrary: b k sc)
  case Nil
  then show ?case by simp
next
  case (Cons d ds)
  from Cons.prems have d: "0 \<le> d" "d < int (length b)"
    by simp_all
  then have q: "py_index b d = Some (b ! nat d)"
    by (rule py_index_nat)
  have keep: "\<exists>b' k' sc'. capture_loop b ds k sc = Inr (b', k', sc') \<and> length b' = length b
     \<and> (\<forall>i < length b. b' ! i = b ! i
           \<or> (b' ! i = CHR ''.'' \<and> (b ! i = CHR ''x'' \<or> b ! i = CHR ''#'')))"
    using Cons.prems by (intro Cons.IH) simp_all
  show ?case
  proof (cases "b ! nat d = CHR ''x''")
    case False
    with q keep show ?thesis
      by simp
  next
    case True
    from True d Cons.prems(3) have "on_board d"
      by (metis int_nat_eq nat_less_iff)
    then have "interior d"
      by (rule on_board_interior)
    moreover have "\<forall>i < length b. b ! i = b ! nat d \<longrightarrow> interior (int i)"
      using True Cons.prems(3) by (simp add: on_board_interior)
    ultimately obtain fb where ff: "floodfill b d = Inr fb"
      using floodfill_safe [OF Cons.prems(1), of d] True by auto
    obtain lo where lo: "contact fb CHR ''.'' = Inr lo"
      using contact_literal by blast
    show ?thesis
    proof (cases lo)
      case (Some l)
      with q True ff lo keep show ?thesis
        by simp
    next
      case None
      let ?b2 = "py_replace fb CHR ''#'' CHR ''.''"
      from floodfill_set [OF ff] have len: "length fb = length b"
        by simp
      have cells: "?b2 ! i = b ! i \<or> (?b2 ! i = CHR ''.'' \<and> (b ! i = CHR ''x'' \<or> b ! i = CHR ''#''))"
        if "i < length b" for i
        using floodfill_cells [OF ff q that] that len True
        by (auto simp: py_replace_def)
      have "\<exists>b' k' sc'. capture_loop ?b2 ds (k + py_count fb CHR ''#'')
            (if py_count fb CHR ''#'' = 1 then sc @ [d] else sc) = Inr (b', k', sc')
          \<and> length b' = length ?b2
          \<and> (\<forall>i < length ?b2. b' ! i = ?b2 ! i
                \<or> (b' ! i = CHR ''.'' \<and> (?b2 ! i = CHR ''x'' \<or> ?b2 ! i = CHR ''#'')))"
      proof (intro Cons.IH)
        show "int (length ?b2) = W2"
          using len Cons.prems(1) by (simp add: py_replace_length)
        show "\<forall>d \<in> set ds. 0 \<le> d \<and> d < W2"
          using Cons.prems(2) by simp
        show "\<forall>i < length ?b2. ?b2 ! i = CHR ''x'' \<longrightarrow> on_board (int i)"
        proof (intro allI impI)
          fix i
          assume i: "i < length ?b2" "?b2 ! i = CHR ''x''"
          then have ib: "i < length b"
            using len by (simp add: py_replace_length)
          from cells [OF ib] i(2) have "b ! i = CHR ''x''"
            by auto
          with Cons.prems(3) ib show "on_board (int i)"
            by simp
        qed
      qed
      then obtain b' k' sc' where
        rest: "capture_loop ?b2 ds (k + py_count fb CHR ''#'')
            (if py_count fb CHR ''#'' = 1 then sc @ [d] else sc) = Inr (b', k', sc')"
        and len': "length b' = length b"
        and cells': "\<forall>i < length b. b' ! i = ?b2 ! i
                \<or> (b' ! i = CHR ''.'' \<and> (?b2 ! i = CHR ''x'' \<or> ?b2 ! i = CHR ''#''))"
        using len by (auto simp: py_replace_length)
      have "\<forall>i < length b. b' ! i = b ! i
           \<or> (b' ! i = CHR ''.'' \<and> (b ! i = CHR ''x'' \<or> b ! i = CHR ''#''))"
      proof (intro allI impI)
        fix i
        assume ib: "i < length b"
        from cells [OF ib] cells' [rule_format, OF ib]
        show "b' ! i = b ! i \<or> (b' ! i = CHR ''.'' \<and> (b ! i = CHR ''x'' \<or> b ! i = CHR ''#''))"
          by auto
      qed
      with q True ff lo None rest len' show ?thesis
        by (simp add: Let_def)
    qed
  qed
qed


text \<open>
  C4 (as the code has it). \<open>move\<close> makes no test of the cell at \<open>c\<close>: it writes the
  mover's stone there with \<open>board_put\<close>, whatever the cell holds. On a framed board, for
  every interior coordinate \<open>c\<close> (a point, a stone or a border cell), if some orthogonal
  neighbour of \<open>c\<close> is empty, \<open>move(c)\<close> returns a new Position with the mover's stone
  written at \<open>c\<close>. The first test of \<open>move\<close>, its ko test, is left out of this
  statement: \<open>c\<close> is not the stored ko and komi is not a whole number (it is 7.5 unless
  set otherwise), so that neither the test as it is meant nor the test as it is written
  applies to \<open>c\<close>.
\<close>

theorem move_accepts_beside_empty_point:
  assumes fr: "frame_ok (board p)" and c: "interior c" and d: "d \<in> set (neighbors c)"
    and e: "py_index (board p) d = Some CHR ''.''"
    and no_ko: "ko p \<noteq> Some c" and half: "komi p \<notin> \<int>"
  shows "\<exists>p'. move p c = Inr (Some p') \<and> py_index (board p') c = Some CHR ''x''
           \<and> last_mv p' = Some c"
proof -
  let ?b = "board p"
  let ?b1 = "?b[nat c := CHR ''X'']"
  have k: "of_int c \<noteq> komi p"
    using half by (metis Ints_of_int)
  have len: "int (length ?b) = W2"
    using fr by (rule frame_ok_length)
  from c len have c': "0 \<le> c" "c < int (length ?b)"
    by (simp_all add: interior_def W_val W2_val)
  have nb: "\<forall>d \<in> set (neighbors c). 0 \<le> d \<and> d < W2"
    using c by (rule interior_neighbors)
  then have nb': "\<forall>d \<in> set (neighbors c). 0 \<le> d \<and> d < int (length ?b)"
    using len by simp
  from nb' d have d': "0 \<le> d" "d < int (length ?b)"
    by simp_all
  with e have ed: "?b ! nat d = CHR ''.''"
    by (simp add: py_index_nat)
  from d c' d' have dc: "nat d \<noteq> nat c"
    and adj: "nat d = nat c + 1 \<or> nat c = nat d + 1 \<or> nat d = nat c + 15 \<or> nat c = nat d + 15"
    by (auto simp: neighbors_def W_val)
  obtain ec where ec: "is_eyeish ?b c = Inr ec"
    using eyeish_loop_ok [OF nb', of None] by (auto simp: is_eyeish_def)
  have put: "board_put ?b (Some c) CHR ''X'' = Some ?b1"
    using c' by (rule board_put_nat)
  have stone: "on_board (int i)" if "i < length ?b" "?b ! i = CHR ''x'' \<or> ?b ! i = CHR ''X''" for i
    using frame_ok_cells [OF fr that(1)] that(2) stones_not_space by auto
  have xcells: "\<forall>i < length ?b1. ?b1 ! i = CHR ''x'' \<longrightarrow> on_board (int i)"
  proof (intro allI impI)
    fix i
    assume "i < length ?b1" "?b1 ! i = CHR ''x''"
    then show "on_board (int i)"
      using stone [of i] by (cases "i = nat c") auto
  qed
  from capture_loop_safe [of ?b1 "neighbors c" "fst (captures p)" "[]"] len nb xcells
  obtain b' k' sc' where
    cap: "capture_loop ?b1 (neighbors c) (fst (captures p)) [] = Inr (b', k', sc')"
    and len': "length b' = length ?b"
    and cells: "\<forall>i < length ?b. b' ! i = ?b1 ! i
        \<or> (b' ! i = CHR ''.'' \<and> (?b1 ! i = CHR ''x'' \<or> ?b1 ! i = CHR ''#''))"
    by auto
  from c' have nc: "nat c < length ?b"
    by simp
  from d' have nd: "nat d < length ?b"
    by simp
  from cells [rule_format, OF nc] nc have bc: "b' ! nat c = CHR ''X''"
    by auto
  from cells [rule_format, OF nd] nd dc ed have bd: "b' ! nat d = CHR ''.''"
    by auto
  have Xcells: "\<forall>i < length b'. b' ! i = b' ! nat c \<longrightarrow> interior (int i)"
  proof (intro allI impI)
    fix i
    assume i: "i < length b'" "b' ! i = b' ! nat c"
    show "interior (int i)"
    proof (cases "i = nat c")
      case True
      with c c' show ?thesis
        by simp
    next
      case False
      from i len' have ib: "i < length ?b"
        by simp
      from cells [rule_format, OF ib] i(2) bc False ib have "?b ! i = CHR ''X''"
        by auto
      with stone [OF ib] show ?thesis
        by (simp add: on_board_interior)
    qed
  qed
  from len len' have lenb': "int (length b') = W2"
    by simp
  obtain sf where sf: "floodfill b' c = Inr sf"
    using floodfill_safe [OF lenb' c _ Xcells] bc by auto
  from floodfill_set [OF sf] len' have lensf: "length sf = length ?b"
    by simp
  have sfc: "sf ! nat c = CHR ''#''"
    using floodfill_start [OF sf] c' len' by simp
  have "py_index b' c = Some CHR ''X''"
    using c' len' bc by (simp add: py_index_nat)
  from floodfill_cells [OF sf this, of "nat d"] nd len' bd have sfd: "sf ! nat d = CHR ''.''"
    by auto
  have "contact_scan sf CHR ''.'' 0 \<noteq> None"
    using contact_scan_complete [of "nat c" sf "nat d" "CHR ''.''" 0] nc nd lensf sfc sfd adj
    by auto
  then obtain l where l: "contact sf CHR ''.'' = Inr (Some l)"
    by (auto simp: contact_def)
  define p' where "p' = \<lparr>board = swapcase b', captures = (snd (captures p), k'),
      n = n p + 1,
      ko = (if ec = Some CHR ''x'' \<and> length sc' = 1 then Some (hd sc') else None),
      last_mv = Some c, last2 = last_mv p, komi = komi p\<rparr>"
  have mv: "move p c = Inr (Some p')"
    using k ec put cap sf l by (simp add: move_def Let_def p'_def)
  from nc len' have "b' \<noteq> []"
    by auto
  then have "swapcase b' = map swapcase_char b'"
    by (simp add: swapcase_def Board_nonempty)
  then have "py_index (board p') c = Some CHR ''x''"
    using c' len' bc by (simp add: p'_def py_index_nat swapcase_char_stones)
  with mv show ?thesis
    by (auto simp: p'_def)
qed

lemma frame_ok_ko_board: "frame_ok ko_board"
  by code_simp

lemma komi_half: "(7.5 :: real) \<notin> \<int>"
proof
  assume "(7.5 :: real) \<in> \<int>"
  then obtain k :: int where "(7.5 :: real) = of_int k"
    by (auto elim: Ints_cases)
  then have "(of_int (2 * k) :: real) = of_int 15"
    by simp
  then have "2 * k = 15"
    by (simp only: of_int_eq_iff)
  then show False
    by presburger
qed

theorem move_accepts_beside_empty_point_witness:
  "frame_ok (board ko_before) \<and> interior 110 \<and> 109 \<in> set (neighbors 110)
   \<and> py_index (board ko_before) 110 = Some CHR ''X''
   \<and> py_index (board ko_before) 109 = Some CHR ''.''
   \<and> ko ko_before \<noteq> Some 110 \<and> komi ko_before \<notin> \<int>
   \<and> (\<exists>p'. move ko_before 110 = Inr (Some p') \<and> py_index (board p') 110 = Some CHR ''x''
          \<and> last_mv p' = Some 110)"
proof -
  have f: "frame_ok (board ko_before)"
    by (simp add: ko_before_def frame_ok_ko_board)
  have i: "interior 110" and d: "109 \<in> set (neighbors 110)"
    by (simp_all add: interior_def neighbors_def W_val W2_val)
  have x: "py_index (board ko_before) 110 = Some CHR ''X''"
    and e: "py_index (board ko_before) 109 = Some CHR ''.''"
    by code_simp+
  have k: "ko ko_before \<noteq> Some 110"
    by (simp add: ko_before_def)
  have h: "komi ko_before \<notin> \<int>"
    using komi_half by (simp add: ko_before_def)
  from move_accepts_beside_empty_point [OF f i d e k h] f i d x e k h show ?thesis
    by blast
qed

text \<open>
  C4 as stated fails: in \<open>ko_before\<close> (no ko stored, komi 7.5) the coordinate 110 holds
  a stone and the coordinate 15 is a border cell, and \<open>move\<close> returns a Position (whose
  \<open>last\<close> is that coordinate) for both.
\<close>

theorem move_onto_stone_and_border:
  "py_index (board ko_before) 110 = Some CHR ''X''
   \<and> map_sum id (map_option last_mv) (move ko_before 110) = Inr (Some (Some 110))
   \<and> \<not> on_board 15 \<and> py_index (board ko_before) 15 = Some CHR '' ''
   \<and> map_sum id (map_option last_mv) (move ko_before 15) = Inr (Some (Some 15))"
  by code_simp

section \<open>rave_urgency never divides by zero\<close>

lemma engine_node_bounds: "engine_node nd \<Longrightarrow> 0 \<le> v nd \<and> 10 \<le> pv nd \<and> 0 \<le> av nd"
proof (induction rule: engine_node.induct)
  case (cfg nd j k)
  then have "k \<in> set PRIOR_CFG"
    by (auto simp: py_index_def Let_def split: if_splits)
  then have "0 \<le> k"
    by (auto simp: PRIOR_CFG_def)
  with cfg show ?case by simp
next
  case (large_pattern nd patternprob)
  then have "0 \<le> sqrt patternprob * PRIOR_LARGEPATTERN"
    by (simp add: PRIOR_LARGEPATTERN_def)
  with large_pattern show ?case by simp
qed (simp_all add: TreeNode_def PRIOR_EVEN_def PRIOR_CAPTURE_MANY_def PRIOR_CAPTURE_ONE_def
    PRIOR_PAT3_def PRIOR_EMPTYAREA_def PRIOR_SELFATARI_def)

text \<open>
  C10. On every TreeNode the engine creates, \<open>rave_urgency\<close> returns a number and never
  raises ZeroDivisionError: the divisor \<open>v + pv\<close> is strictly positive, because \<open>pv\<close>
  starts at \<open>PRIOR_EVEN = 10\<close> and only grows while \<open>v\<close> is never negative, and the
  divisions by \<open>av\<close> and by the denominator of \<open>beta\<close> come after the test \<open>av == 0\<close>.
  \<open>RAVE_EQUIV\<close> is any positive number.
\<close>

theorem rave_urgency_total:
  assumes "engine_node nd" and "0 < RAVE_EQUIV"
  shows "0 < of_int (v nd) + pv nd \<and> (\<exists>r. rave_urgency RAVE_EQUIV nd = Inr r)"
proof -
  from engine_node_bounds [OF assms(1)] have b: "0 \<le> v nd" "10 \<le> pv nd" "0 \<le> av nd"
    by simp_all
  then have pos: "0 < of_int (v nd) + pv nd"
    by simp
  show ?thesis
  proof (cases "av nd = 0")
    case True
    with pos show ?thesis
      by (simp add: rave_urgency_def py_truediv_def Let_def)
  next
    case False
    with b have a: "0 < (of_int (av nd) :: real)"
      by simp
    with pos assms(2) have "0 \<le> (of_int (v nd) + pv nd) * of_int (av nd) / RAVE_EQUIV"
      by simp
    with a pos have
      "0 < of_int (av nd) + (of_int (v nd) + pv nd)
             + (of_int (v nd) + pv nd) * of_int (av nd) / RAVE_EQUIV"
      by linarith
    with pos a assms(2) False show ?thesis
      by (simp add: rave_urgency_def py_truediv_def Let_def)
  qed
qed

lemma engine_node_visited: "engine_node visited_node"
proof -
  let ?a = "TreeNode first_move"
  let ?b = "?a\<lparr>v := v ?a + 1\<rparr>"
  have "engine_node ?b"
    by (intro engine_node.descended engine_node.created)
  then have "engine_node (?b\<lparr>aw := aw ?b + (if True then 1 else 0), av := av ?b + 1\<rparr>)"
    by (rule engine_node.amaf)
  moreover have "?b\<lparr>aw := aw ?b + (if True then 1 else 0), av := av ?b + 1\<rparr> = visited_node"
    by (simp add: visited_node_def TreeNode_def)
  ultimately show ?thesis
    by simp
qed

theorem rave_urgency_total_witness:
  "engine_node visited_node \<and> (0 :: real) < 3500
   \<and> 0 < of_int (v visited_node) + pv visited_node
   \<and> rave_urgency 3500 visited_node = Inr (21005 / 42011)"
proof -
  have "rave_urgency 3500 visited_node = Inr (21005 / 42011)"
    by (simp add: rave_urgency_def visited_node_def TreeNode_def py_truediv_def PRIOR_EVEN_def
        Let_def)
  with rave_urgency_total [OF engine_node_visited, of 3500] engine_node_visited show ?thesis
    by simp
qed

section \<open>Backups commute\<close>

lemma shifted_upd_aw:
  "(shifted dw daw dav t)(r := (shifted dw daw dav t r)\<lparr>aw := aw (shifted dw daw dav t r) + a,
      av := av (shifted dw daw dav t r) + b\<rparr>)
   = shifted dw daw dav (t(r := (t r)\<lparr>aw := aw (t r) + a, av := av (t r) + b\<rparr>))"
  by (rule ext) (simp add: shifted_def)

lemma shifted_upd_w:
  "(shifted dw daw dav t)(r := (shifted dw daw dav t r)\<lparr>w := w (shifted dw daw dav t r) + a\<rparr>)
   = shifted dw daw dav (t(r := (t r)\<lparr>w := w (t r) + a\<rparr>))"
  by (rule ext) (simp add: shifted_def)

lemma shifted_fields:
  "pos (shifted dw daw dav t r) = pos (t r)" "children (shifted dw daw dav t r) = children (t r)"
  by (simp_all add: shifted_def)

text \<open>A backup reads only \<open>pos\<close> and \<open>children\<close>: it does the same on a shifted tree.\<close>

lemma amaf_children_shifted:
  "amaf_children am val sc cs (shifted dw daw dav t)
   = map_sum id (shifted dw daw dav) (amaf_children am val sc cs t)"
proof (induction cs arbitrary: t)
  case Nil
  then show ?case by simp
next
  case (Cons child rest)
  define a :: int where "a = (if 0 < sc then 1 else 0)"
  have step: "amaf_children am val sc (child # rest) u =
      (case last_mv (pos (u child)) of
         None \<Rightarrow> amaf_children am val sc rest u
       | Some c \<Rightarrow>
           (case py_index am c of
              None \<Rightarrow> Inl IndexError
            | Some x \<Rightarrow>
                if x = val
                then amaf_children am val sc rest
                       (u(child := (u child)\<lparr>aw := aw (u child) + a, av := av (u child) + 1\<rparr>))
                else amaf_children am val sc rest u))" for u
    unfolding a_def by simp
  show ?case
    unfolding step shifted_fields shifted_upd_aw
    by (simp add: Cons.IH fun_upd_def split: option.splits)
qed

lemma update_path_shifted:
  "update_path ns am sc (shifted dw daw dav t)
   = map_sum id (shifted dw daw dav) (update_path ns am sc t)"
proof (induction ns arbitrary: t sc)
  case Nil
  then show ?case by simp
next
  case (Cons node rest)
  let ?t1 = "t(node := (t node)\<lparr>w := w (t node) + (if sc < 0 then 1 else 0)\<rparr>)"
  let ?val = "if n (pos (?t1 node)) mod 2 = 0 then 1 else - 1 :: int"
  let ?inner = "case children (?t1 node) of None \<Rightarrow> Inr ?t1
                | Some cs \<Rightarrow> amaf_children am ?val sc cs ?t1"
  have step: "update_path (node # rest) am sc u =
      (case (case children ((u(node := (u node)\<lparr>w := w (u node) + (if sc < 0 then 1 else 0)\<rparr>)) node) of
               None \<Rightarrow> Inr (u(node := (u node)\<lparr>w := w (u node) + (if sc < 0 then 1 else 0)\<rparr>))
             | Some cs \<Rightarrow> amaf_children am
                 (if n (pos ((u(node := (u node)\<lparr>w := w (u node) + (if sc < 0 then 1 else 0)\<rparr>)) node)) mod 2 = 0
                  then 1 else - 1) sc cs
                 (u(node := (u node)\<lparr>w := w (u node) + (if sc < 0 then 1 else 0)\<rparr>))) of
         Inl e \<Rightarrow> Inl e
       | Inr t2 \<Rightarrow> update_path rest am (- sc) t2)" for u
    by (simp add: Let_def)
  have inner: "(case children ((shifted dw daw dav ?t1) node) of None \<Rightarrow> Inr (shifted dw daw dav ?t1)
                | Some cs \<Rightarrow> amaf_children am
                    (if n (pos ((shifted dw daw dav ?t1) node)) mod 2 = 0 then 1 else - 1) sc cs
                    (shifted dw daw dav ?t1))
               = map_sum id (shifted dw daw dav) ?inner"
    by (cases "children (?t1 node)") (simp_all add: shifted_fields amaf_children_shifted)
  show ?case
    unfolding step shifted_upd_w inner
    by (cases ?inner) (simp_all add: Cons.IH)
qed

lemma shifted_shifted:
  "shifted dw daw dav (shifted ew eaw eav t)
   = shifted (\<lambda>r. dw r + ew r) (\<lambda>r. daw r + eaw r) (\<lambda>r. dav r + eav r) t"
  by (rule ext) (simp add: shifted_def)

lemma shifted_zero: "shifted (\<lambda>r. 0) (\<lambda>r. 0) (\<lambda>r. 0) t = t"
  by (rule ext) (simp add: shifted_def)

lemma upd_aw_is_shifted:
  "t(r := (t r)\<lparr>aw := aw (t r) + a, av := av (t r) + b\<rparr>)
   = shifted (\<lambda>x. 0) (\<lambda>x. if x = r then a else 0) (\<lambda>x. if x = r then b else 0) t"
  by (rule ext) (simp add: shifted_def)

lemma upd_w_is_shifted:
  "t(r := (t r)\<lparr>w := w (t r) + a\<rparr>)
   = shifted (\<lambda>x. if x = r then a else 0) (\<lambda>x. 0) (\<lambda>x. 0) t"
  by (rule ext) (simp add: shifted_def)

text \<open>A backup only adds to \<open>w\<close>, \<open>aw\<close> and \<open>av\<close>: its result is a shifted tree.\<close>

lemma amaf_children_is_shifted:
  "amaf_children am val sc cs t = Inr t' \<Longrightarrow> \<exists>dw daw dav. t' = shifted dw daw dav t"
proof (induction cs arbitrary: t)
  case Nil
  then have "t' = shifted (\<lambda>r. 0) (\<lambda>r. 0) (\<lambda>r. 0) t"
    by (simp add: shifted_zero)
  then show ?case
    by blast
next
  case (Cons child rest)
  show ?case
  proof (cases "last_mv (pos (t child))")
    case None
    with Cons.prems have "amaf_children am val sc rest t = Inr t'"
      by simp
    then show ?thesis
      by (rule Cons.IH)
  next
    case (Some c)
    with Cons.prems obtain a where a: "py_index am c = Some a"
      by (auto split: option.splits)
    show ?thesis
    proof (cases "a = val")
      case False
      with Some a Cons.prems have "amaf_children am val sc rest t = Inr t'"
        by simp
      then show ?thesis
        by (rule Cons.IH)
    next
      case True
      let ?u = "t(child := (t child)\<lparr>aw := aw (t child) + (if 0 < sc then 1 else 0),
                                       av := av (t child) + 1\<rparr>)"
      from True Some a Cons.prems have "amaf_children am val sc rest ?u = Inr t'"
        by simp
      from Cons.IH [OF this] obtain dw daw dav where "t' = shifted dw daw dav ?u"
        by blast
      then show ?thesis
        unfolding upd_aw_is_shifted shifted_shifted by blast
    qed
  qed
qed

lemma update_path_is_shifted:
  "update_path ns am sc t = Inr t' \<Longrightarrow> \<exists>dw daw dav. t' = shifted dw daw dav t"
proof (induction ns arbitrary: t sc)
  case Nil
  then have "t' = shifted (\<lambda>r. 0) (\<lambda>r. 0) (\<lambda>r. 0) t"
    by (simp add: shifted_zero)
  then show ?case
    by blast
next
  case (Cons node rest)
  let ?t1 = "t(node := (t node)\<lparr>w := w (t node) + (if sc < 0 then 1 else 0)\<rparr>)"
  from Cons.prems obtain t2 where
    inner: "(case children (?t1 node) of None \<Rightarrow> Inr ?t1
             | Some cs \<Rightarrow> amaf_children am (if n (pos (?t1 node)) mod 2 = 0 then 1 else - 1) sc cs ?t1)
            = Inr t2"
    and rest: "update_path rest am (- sc) t2 = Inr t'"
    by (auto simp: Let_def split: sum.splits)
  have "\<exists>dw daw dav. t2 = shifted dw daw dav ?t1"
  proof (cases "children (?t1 node)")
    case None
    with inner have "t2 = shifted (\<lambda>r. 0) (\<lambda>r. 0) (\<lambda>r. 0) ?t1"
      by (simp only: shifted_zero) simp
    then show ?thesis
      by blast
  next
    case (Some cs)
    with inner show ?thesis
      by (simp only: option.case) (rule amaf_children_is_shifted)
  qed
  then obtain dw daw dav where "t2 = shifted dw daw dav ?t1"
    by blast
  then have t2: "\<exists>dw daw dav. t2 = shifted dw daw dav t"
    unfolding upd_w_is_shifted shifted_shifted by blast
  from Cons.IH [OF rest] obtain ew eaw eav where "t' = shifted ew eaw eav t2"
    by blast
  with t2 show ?case
    unfolding shifted_shifted by (metis shifted_shifted)
qed

text \<open>
  C8. For a fixed tree (a backup does not change \<open>pos\<close> or \<open>children\<close>), applying
  \<open>tree_update\<close> for two completed playout results, each a path, a map of first moves and
  a score, in either order yields the same tree, so identical \<open>w\<close>, \<open>v\<close>, \<open>aw\<close> and
  \<open>av\<close> on every node: whenever the two backups complete in one order, they complete in
  the other order with the same result.
\<close>

theorem tree_update_commutes:
  assumes one: "tree_update nodes1 amaf_map1 score1 t = Inr t1"
    and two: "tree_update nodes2 amaf_map2 score2 t1 = Inr t12"
  shows "\<exists>t2. tree_update nodes2 amaf_map2 score2 t = Inr t2
            \<and> tree_update nodes1 amaf_map1 score1 t2 = Inr t12"
proof -
  from one obtain dw daw dav where t1: "t1 = shifted dw daw dav t"
    unfolding tree_update_def by (blast dest: update_path_is_shifted)
  from two have "map_sum id (shifted dw daw dav) (tree_update nodes2 amaf_map2 score2 t) = Inr t12"
    unfolding tree_update_def t1 update_path_shifted .
  then obtain t2 where t2: "tree_update nodes2 amaf_map2 score2 t = Inr t2"
    and t12: "t12 = shifted dw daw dav t2"
    by (cases "tree_update nodes2 amaf_map2 score2 t") auto
  from t2 obtain ew eaw eav where t2s: "t2 = shifted ew eaw eav t"
    unfolding tree_update_def by (blast dest: update_path_is_shifted)
  have "tree_update nodes1 amaf_map1 score1 t2 = map_sum id (shifted ew eaw eav) (Inr t1)"
    unfolding t2s tree_update_def update_path_shifted
    using one by (simp add: tree_update_def)
  also have "\<dots> = Inr (shifted ew eaw eav (shifted dw daw dav t))"
    by (simp add: t1)
  also have "shifted ew eaw eav (shifted dw daw dav t) = shifted dw daw dav (shifted ew eaw eav t)"
    by (simp add: shifted_shifted add.commute)
  finally show ?thesis
    using t2 t12 t2s by simp
qed

lemma small_tree_backups:
  "\<exists>t1. tree_update [0, 1] amaf_one 1.5 small_tree = Inr t1
        \<and> (\<exists>t12. tree_update [0, 2] amaf_two (- 3.5) t1 = Inr t12
              \<and> w (t12 0) = 1 \<and> w (t12 1) = 0 \<and> w (t12 2) = 1
              \<and> aw (t12 1) = 0 \<and> av (t12 1) = 1 \<and> aw (t12 2) = 1 \<and> av (t12 2) = 2)"
  by (simp add: tree_update_def small_tree_def amaf_one_def amaf_two_def TreeNode_def
      empty_position_def first_move_def py_index_def Let_def)

theorem tree_update_commutes_witness:
  "\<exists>t1 t12. tree_update [0, 1] amaf_one 1.5 small_tree = Inr t1
     \<and> tree_update [0, 2] amaf_two (- 3.5) t1 = Inr t12
     \<and> (\<exists>t2. tree_update [0, 2] amaf_two (- 3.5) small_tree = Inr t2
           \<and> tree_update [0, 1] amaf_one 1.5 t2 = Inr t12)
     \<and> w (t12 0) = 1 \<and> aw (t12 2) = 1 \<and> av (t12 2) = 2"
proof -
  from small_tree_backups obtain t1 t12 where
    one: "tree_update [0, 1] amaf_one 1.5 small_tree = Inr t1"
    and two: "tree_update [0, 2] amaf_two (- 3.5) t1 = Inr t12"
    and stats: "w (t12 0) = 1" "aw (t12 2) = 1" "av (t12 2) = 2"
    by blast
  from tree_update_commutes [OF one two] one two stats show ?thesis
    by blast
qed

section \<open>Receivers are left unchanged\<close>

lemma Board_floodfill_frame:
  "Board_floodfill r c h = (res, h') \<Longrightarrow> m \<le> length h \<Longrightarrow>
   take m h' = take m h \<and> length h \<le> length h'"
  by (auto simp: Board_floodfill_def split: sum.splits)

lemma capture_loop_obj_frame:
  "capture_loop_obj b ds k sc h = (res, h') \<Longrightarrow> m \<le> b \<Longrightarrow> m \<le> length h \<Longrightarrow>
   take m h' = take m h \<and> length h \<le> length h'"
proof (induction ds arbitrary: k sc h)
  case Nil
  then show ?case by simp
next
  case (Cons d ds)
  show ?case
  proof (cases "py_index (h ! b) d")
    case None
    with Cons.prems show ?thesis
      by simp
  next
  case (Some q)
  note q = this
  show ?thesis
  proof (cases "q = CHR ''x''")
    case False
    with q Cons.prems have "capture_loop_obj b ds k sc h = (res, h')"
      by simp
    from Cons.IH [OF this Cons.prems(2,3)] show ?thesis .
  next
    case True
    obtain r1 h1 where ff: "Board_floodfill b d h = (r1, h1)"
      by (cases "Board_floodfill b d h")
    from Board_floodfill_frame [OF ff Cons.prems(3)] Cons.prems(3)
    have h1: "take m h1 = take m h" "length h \<le> length h1" "m \<le> length h1"
      by auto
    show ?thesis
    proof (cases r1)
      case (Inl e)
      with True q ff Cons.prems(1) h1 show ?thesis
        by auto
    next
      case (Inr fboard)
      obtain lo where lo: "contact (h1 ! fboard) CHR ''.'' = Inr lo"
        by (auto simp: contact_def)
      show ?thesis
      proof (cases lo)
        case (Some l)
        with True q ff Inr lo Cons.prems(1) have "capture_loop_obj b ds k sc h1 = (res, h')"
          by simp
        from Cons.IH [OF this Cons.prems(2) h1(3)] h1 show ?thesis
          by simp
      next
        case None
        let ?h2 = "h1[b := py_replace (h1 ! fboard) CHR ''#'' CHR ''.'']"
        from None True q ff Inr lo Cons.prems(1) obtain k2 sc2 where
          "capture_loop_obj b ds k2 sc2 ?h2 = (res, h')"
          by (auto simp: Let_def)
        from Cons.IH [OF this Cons.prems(2)] h1 Cons.prems(2) show ?thesis
          by simp
      qed
    qed
  qed
  qed
qed


lemma Position_move_frame:
  assumes "Position_move p c h = (res, h')"
  shows "take (length h) h' = h \<and> length h \<le> length h'"
proof (cases "of_int c = komi p")
  case True
  with assms show ?thesis
    by (simp add: Position_move_def)
next
  case False
  note k = this
  show ?thesis
  proof (cases "is_eyeish (h ! board p) c")
    case (Inl e)
    with k assms show ?thesis
      by (simp add: Position_move_def)
  next
    case (Inr eyecolor)
    note ec = this
    show ?thesis
    proof (cases "board_put (h ! board p) (Some c) CHR ''X''")
      case None
      then show ?thesis
        by (simp add: board_put_def)
    next
      case (Some s)
      let ?h1 = "h @ [s]"
      let ?b = "length h"
      obtain r2 h2 where cap: "capture_loop_obj ?b (neighbors c) (fst (captures p)) [] ?h1 = (r2, h2)"
        by (cases "capture_loop_obj ?b (neighbors c) (fst (captures p)) [] ?h1")
      from capture_loop_obj_frame [OF cap, of "length h"]
      have h2: "take (length h) h2 = h" "length h \<le> length h2"
        by simp_all
      show ?thesis
      proof (cases r2)
        case (Inl e)
        with k ec Some cap assms h2 show ?thesis
          by (simp add: Position_move_def Board_board_put_def)
      next
        case (Inr cr)
        obtain capt_X singlecaps where cr: "cr = (capt_X, singlecaps)"
          by (cases cr)
        obtain r3 h3 where ff: "Board_floodfill ?b c h2 = (r3, h3)"
          by (cases "Board_floodfill ?b c h2")
        from Board_floodfill_frame [OF ff h2(2)] h2
        have h3: "take (length h) h3 = h" "length h \<le> length h3"
          by simp_all
        show ?thesis
        proof (cases r3)
          case (Inl e)
          with k ec Some cap Inr cr ff assms h3 show ?thesis
            by (simp add: Position_move_def Board_board_put_def)
        next
          case (Inr sfboard)
          with k ec Some cap \<open>r2 = Inr cr\<close> cr ff assms h3 show ?thesis
            by (auto simp: Position_move_def Board_board_put_def Board_swapcase_def Let_def
                split: sum.splits option.splits)
        qed
      qed
    qed
  qed
qed


lemma capture_loop_obj_value:
  "b < length h \<Longrightarrow> capture_loop_obj b ds k sc h = (res, h') \<Longrightarrow>
   b < length h' \<and>
   (case capture_loop (h ! b) ds k sc of
      Inl e \<Rightarrow> res = Inl e
    | Inr (s', k', sc') \<Rightarrow> res = Inr (k', sc') \<and> h' ! b = s')"
proof (induction ds arbitrary: k sc h)
  case Nil
  then show ?case by auto
next
  case (Cons d ds)
  show ?case
  proof (cases "py_index (h ! b) d")
    case None
    with Cons.prems show ?thesis
      by auto
  next
    case (Some q)
    note q = this
    show ?thesis
    proof (cases "q = CHR ''x''")
      case False
      with q Cons.prems(2) have "capture_loop_obj b ds k sc h = (res, h')"
        by simp
      from Cons.IH [OF Cons.prems(1) this] q False show ?thesis
        by simp
    next
      case True
      show ?thesis
      proof (cases "floodfill (h ! b) d")
        case (Inl e)
        with True q Cons.prems show ?thesis
          by (auto simp: Board_floodfill_def)
      next
        case (Inr fb)
        let ?h1 = "h @ [fb]"
        from Cons.prems(1) have b1: "b < length ?h1" "?h1 ! b = h ! b" "?h1 ! length h = fb"
          by (simp_all add: nth_append)
        obtain lo where lo: "contact fb CHR ''.'' = Inr lo"
          by (auto simp: contact_def)
        show ?thesis
        proof (cases lo)
          case (Some l)
          with True q Inr lo Cons.prems(2) have "capture_loop_obj b ds k sc ?h1 = (res, h')"
            by (simp add: Board_floodfill_def)
          from Cons.IH [OF b1(1) this] True q Inr lo Some b1(2) show ?thesis
            by simp
        next
          case None
          let ?h2 = "?h1[b := py_replace fb CHR ''#'' CHR ''.'']"
          from b1 have b2: "b < length ?h2" "?h2 ! b = py_replace fb CHR ''#'' CHR ''.''"
            by simp_all
          from None True q Inr lo Cons.prems(2)
          have "capture_loop_obj b ds (k + py_count fb CHR ''#'')
                  (if py_count fb CHR ''#'' = 1 then sc @ [d] else sc) ?h2 = (res, h')"
            by (simp add: Board_floodfill_def Let_def)
          from Cons.IH [OF b2(1) this] True q Inr lo None b2(2) show ?thesis
            by (simp add: Let_def)
        qed
      qed
    qed
  qed
qed

lemma value_of_fields:
  "board (value_of h p) = h ! board p" "komi (value_of h p) = komi p"
  "captures (value_of h p) = captures p" "n (value_of h p) = n p"
  "last_mv (value_of h p) = last_mv p" "ko (value_of h p) = ko p"
  "last2 (value_of h p) = last2 p"
  by (simp_all add: value_of_def)

lemma Position_move_value:
  assumes valid: "board p < length h" and mv: "Position_move p c h = (res, h')"
  shows "map_sum id (map_option (value_of h')) res = move (value_of h p) c"
proof (cases "of_int c = komi p")
  case True
  with mv show ?thesis
    by (auto simp: Position_move_def move_def value_of_def)
next
  case False
  note k = this
  note v = value_of_fields
  show ?thesis
  proof (cases "is_eyeish (h ! board p) c")
    case (Inl e)
    with k mv show ?thesis
      by (auto simp: Position_move_def move_def v)
  next
    case (Inr eyecolor)
    note ec = this
    obtain s where s: "board_put (h ! board p) (Some c) CHR ''X'' = Some s"
      by (simp add: board_put_def)
    let ?h1 = "h @ [s]"
    let ?b = "length h"
    obtain r2 h2 where cap: "capture_loop_obj ?b (neighbors c) (fst (captures p)) [] ?h1 = (r2, h2)"
      by (cases "capture_loop_obj ?b (neighbors c) (fst (captures p)) [] ?h1")
    from capture_loop_obj_value [OF _ cap]
    have b2: "?b < length h2"
      and sim: "case capture_loop s (neighbors c) (fst (captures p)) [] of
          Inl e \<Rightarrow> r2 = Inl e
        | Inr (s', k', sc') \<Rightarrow> r2 = Inr (k', sc') \<and> h2 ! ?b = s'"
      by simp_all
    show ?thesis
    proof (cases "capture_loop s (neighbors c) (fst (captures p)) []")
      case (Inl e)
      with sim k ec s cap mv show ?thesis
        by (auto simp: Position_move_def move_def v Board_board_put_def)
    next
      case (Inr cr)
      obtain b' capt_X singlecaps where cr: "cr = (b', capt_X, singlecaps)"
        by (cases cr)
      with sim Inr have r2: "r2 = Inr (capt_X, singlecaps)" and hb: "h2 ! ?b = b'"
        by simp_all
      show ?thesis
      proof (cases "floodfill b' c")
        case (Inl e)
        with k ec s cap r2 hb Inr cr mv show ?thesis
          by (auto simp: Position_move_def move_def v Board_board_put_def Board_floodfill_def)
      next
        case (Inr sf)
        let ?h3 = "h2 @ [sf]"
        from b2 hb have h3: "?h3 ! length h2 = sf" "?h3 ! ?b = b'"
          by (simp_all add: nth_append)
        obtain lo where lo: "contact sf CHR ''.'' = Inr lo"
          by (auto simp: contact_def)
        show ?thesis
        proof (cases lo)
          case None
          with k ec s cap r2 hb \<open>capture_loop s (neighbors c) (fst (captures p)) [] = Inr cr\<close>
            cr Inr lo mv h3 show ?thesis
            by (auto simp: Position_move_def move_def v Board_board_put_def Board_floodfill_def)
        next
          case (Some l)
          with k ec s cap r2 hb \<open>capture_loop s (neighbors c) (fst (captures p)) [] = Inr cr\<close>
            cr Inr lo mv h3 show ?thesis
            by (auto simp: Position_move_def move_def v Board_board_put_def Board_floodfill_def
                Board_swapcase_def value_of_def nth_append)
        qed
      qed
    qed
  qed
qed

lemma Position_pass_move_value:
  "Position_pass_move p h = (q, h') \<Longrightarrow> value_of h' q = pass_move (value_of h p)"
  by (auto simp: Position_pass_move_def Board_swapcase_def value_of_def pass_move_def)

text \<open>
  C9. Board values and Positions are immutable through the move interface: after
  \<open>p.move(c)\<close> or \<open>p.pass_move()\<close>, and after \<open>floodfill\<close>, \<open>swapcase\<close> and \<open>board_put\<close>
  on a Board, every Board object that existed before the call holds the board string it
  held before (the only assignment, \<open>board.board = ...\<close> in \<open>move\<close>, goes to the Board
  that \<open>board_put\<close> has just created), so the receiver \<open>p\<close> stands for the same Position:
  same board string, captures, n, ko, last, last2 and komi. The results are new objects.
\<close>

theorem receivers_unchanged:
  "take (length h) (snd (Position_move p c h)) = h
   \<and> take (length h) (snd (Position_pass_move p h)) = h
   \<and> take (length h) (snd (Board_floodfill r c h)) = h
   \<and> take (length h) (snd (Board_swapcase r h)) = h
   \<and> take (length h) (snd (Board_board_put r co ch h)) = h
   \<and> (board p < length h \<longrightarrow>
        value_of (snd (Position_move p c h)) p = value_of h p
        \<and> value_of (snd (Position_pass_move p h)) p = value_of h p)
   \<and> (\<forall>q. fst (Position_move p c h) = Inr (Some q) \<longrightarrow> length h \<le> board q)
   \<and> length h \<le> board (fst (Position_pass_move p h))
   \<and> (\<forall>fb. fst (Board_floodfill r c h) = Inr fb \<longrightarrow> length h \<le> fb)
   \<and> length h \<le> fst (Board_swapcase r h)
   \<and> (\<forall>nb. fst (Board_board_put r co ch h) = Some nb \<longrightarrow> length h \<le> nb)"
proof -
  have mv: "take (length h) (snd (Position_move p c h)) = h"
    using Position_move_frame [of p c h "fst (Position_move p c h)" "snd (Position_move p c h)"]
    by simp
  have ps: "take (length h) (snd (Position_pass_move p h)) = h"
    by (simp add: Position_pass_move_def Board_swapcase_def)
  have ff: "take (length h) (snd (Board_floodfill r c h)) = h"
    by (simp add: Board_floodfill_def split: sum.splits)
  have sw: "take (length h) (snd (Board_swapcase r h)) = h"
    by (simp add: Board_swapcase_def)
  have bp: "take (length h) (snd (Board_board_put r co ch h)) = h"
    by (simp add: Board_board_put_def split: option.splits)
  have same: "value_of h' p = value_of h p" if "take (length h) h' = h" "board p < length h" for h'
  proof -
    from that have "h' ! board p = h ! board p"
      by (metis nth_take)
    then show ?thesis
      by (simp add: value_of_def)
  qed
  have fresh: "length h \<le> board q" if "fst (Position_move p c h) = Inr (Some q)" for q
  proof -
    obtain res h' where m: "Position_move p c h = (res, h')"
      by (cases "Position_move p c h")
    with that have res: "res = Inr (Some q)"
      by simp
    from m [unfolded res] show ?thesis
      by (auto simp: Position_move_def Board_board_put_def Board_floodfill_def Board_swapcase_def
          Let_def board_put_def
          split: if_splits sum.splits option.splits prod.splits
          dest!: capture_loop_obj_frame [where m = "length h"])
  qed
  have fresh_pass: "length h \<le> board (fst (Position_pass_move p h))"
    by (simp add: Position_pass_move_def Board_swapcase_def)
  have fresh_ff: "length h \<le> fb" if "fst (Board_floodfill r c h) = Inr fb" for fb
    using that by (auto simp: Board_floodfill_def split: sum.splits)
  have fresh_sw: "length h \<le> fst (Board_swapcase r h)"
    by (simp add: Board_swapcase_def)
  have fresh_bp: "length h \<le> nb" if "fst (Board_board_put r co ch h) = Some nb" for nb
    using that by (auto simp: Board_board_put_def split: option.splits)
  from mv ps ff sw bp same [OF mv] same [OF ps] fresh fresh_pass fresh_ff fresh_sw fresh_bp
  show ?thesis
    by blast
qed

lemma Position_move_ko_obj:
  "fst (Position_move ko_obj 112 [ko_board])
   = Inr (Some \<lparr>board = 7, captures = (0, 1), n = 8, ko = Some 111, last_mv = Some 112,
                 last2 = Some 113, komi = 7.5\<rparr>)"
  by code_simp

theorem receivers_unchanged_witness:
  "board ko_obj < length [ko_board]
   \<and> fst (Position_move ko_obj 112 [ko_board])
       = Inr (Some \<lparr>board = 7, captures = (0, 1), n = 8, ko = Some 111, last_mv = Some 112,
                     last2 = Some 113, komi = 7.5\<rparr>)
   \<and> take (length [ko_board]) (snd (Position_move ko_obj 112 [ko_board])) = [ko_board]
   \<and> value_of (snd (Position_move ko_obj 112 [ko_board])) ko_obj = ko_before
   \<and> value_of (snd (Position_pass_move ko_obj [ko_board])) ko_obj = ko_before"
proof -
  have v: "board ko_obj < length [ko_board]"
    and b: "value_of [ko_board] ko_obj = ko_before"
    by (simp_all add: ko_obj_def ko_before_def value_of_def)
  from receivers_unchanged [of "[ko_board]" ko_obj 112] v b Position_move_ko_obj
  show ?thesis
    by simp
qed

section \<open>The playout ends\<close>































end
